theory Spec2Isabelle
  imports Complex_Main "HOL-Library.Log_Nat"
begin

section \<open>Machine integers\<close>

text \<open>
  Go's \<open>int64\<close> (and \<open>int\<close>, 64 bits wide on the platforms the library targets) is
  modelled by \<open>int\<close> with the two's complement wrap-around written out at every addition
  and subtraction.  Division and remainder truncate towards zero.
\<close>

definition i64 :: "int \<Rightarrow> int" where
  "i64 x = signed_take_bit 63 x"

definition minInt64 :: int where
  "minInt64 = - (2 ^ 63)"

definition maxInt64 :: int where
  "maxInt64 = 2 ^ 63 - 1"

definition quot :: "int \<Rightarrow> int \<Rightarrow> int" where
  "quot a b = sgn a * sgn b * (\<bar>a\<bar> div \<bar>b\<bar>)"

definition rem :: "int \<Rightarrow> int \<Rightarrow> int" where
  "rem a b = sgn a * (\<bar>a\<bar> mod \<bar>b\<bar>)"

section \<open>Binary floating point\<close>

text \<open>
  A \<open>float64\<close> is either a finite value, kept as the rational number it denotes, an
  infinity, or NaN.  Every arithmetic operation computes the exact rational result and
  rounds it to the nearest value with a 53 bit significand, ties to even, as IEEE 754
  prescribes; results of magnitude \<open>2 ^ 1024\<close> or more become infinities and the
  subnormal range keeps the fixed quantum \<open>2 ^ -1074\<close>.  The sign of zero is not kept:
  in the code below a zero is only ever compared, added, converted to an integer or
  printed after a test that excludes it, except as the divisor \<open>averageRate\<close>, which
  is a quotient by a positive time and so never a negative zero.
\<close>

datatype f64 = Fin rat | PInf | NInf | NaN

definition pow2 :: "int \<Rightarrow> rat" where
  "pow2 e = (if 0 \<le> e then 2 ^ nat e else 1 / 2 ^ nat (- e))"

definition ilog2 :: "rat \<Rightarrow> int" where
  \<comment> \<open>for \<open>x \<noteq> 0\<close>, the \<open>e\<close> with \<open>2 ^ e \<le> \<bar>x\<bar> < 2 ^ (e + 1)\<close>\<close>
  "ilog2 x = (let (a, b) = quotient_of \<bar>x\<bar>;
                  d = int (floorlog 2 (nat a)) - int (floorlog 2 (nat b))
              in if pow2 d \<le> \<bar>x\<bar> then d else d - 1)"

definition round_even :: "rat \<Rightarrow> int" where
  "round_even z = (let f = \<lfloor>z\<rfloor>; d = z - of_int f
                   in if d < 1 / 2 then f
                      else if 1 / 2 < d then f + 1
                      else if even f then f else f + 1)"

definition fexp :: "rat \<Rightarrow> int" where
  \<comment> \<open>the exponent of the binade of \<open>x\<close>, at least that of the subnormal range\<close>
  "fexp x = max (ilog2 x) (- 1022)"

definition f64_round :: "rat \<Rightarrow> f64" where
  "f64_round x =
     (if x = 0 then Fin 0
      else let q = pow2 (fexp x - 52);
               r = of_int (round_even (x / q)) * q
           in if pow2 1024 \<le> \<bar>r\<bar> then (if 0 < x then PInf else NInf) else Fin r)"

definition f64_of_int :: "int \<Rightarrow> f64" where
  "f64_of_int n = f64_round (of_int n)"

fun f64_neg :: "f64 \<Rightarrow> f64" where
  "f64_neg (Fin a) = Fin (- a)"
| "f64_neg PInf = NInf"
| "f64_neg NInf = PInf"
| "f64_neg NaN = NaN"

fun f64_add :: "f64 \<Rightarrow> f64 \<Rightarrow> f64" where
  "f64_add (Fin a) (Fin b) = f64_round (a + b)"
| "f64_add NaN _ = NaN"
| "f64_add _ NaN = NaN"
| "f64_add PInf NInf = NaN"
| "f64_add NInf PInf = NaN"
| "f64_add PInf _ = PInf"
| "f64_add _ PInf = PInf"
| "f64_add NInf _ = NInf"
| "f64_add _ NInf = NInf"

definition f64_sub :: "f64 \<Rightarrow> f64 \<Rightarrow> f64" where
  "f64_sub x y = f64_add x (f64_neg y)"

fun f64_sgn :: "f64 \<Rightarrow> int" where
  "f64_sgn (Fin a) = (if 0 < a then 1 else if a < 0 then - 1 else 0)"
| "f64_sgn PInf = 1"
| "f64_sgn NInf = - 1"
| "f64_sgn NaN = 0"

definition f64_inf :: "int \<Rightarrow> f64" where
  "f64_inf sg = (if 0 < sg then PInf else if sg < 0 then NInf else NaN)"

fun f64_mul :: "f64 \<Rightarrow> f64 \<Rightarrow> f64" where
  "f64_mul (Fin a) (Fin b) = f64_round (a * b)"
| "f64_mul NaN _ = NaN"
| "f64_mul _ NaN = NaN"
| "f64_mul x y = f64_inf (f64_sgn x * f64_sgn y)"

fun f64_div :: "f64 \<Rightarrow> f64 \<Rightarrow> f64" where
  "f64_div (Fin a) (Fin b) = (if b = 0 then f64_inf (f64_sgn (Fin a)) else f64_round (a / b))"
| "f64_div NaN _ = NaN"
| "f64_div _ NaN = NaN"
| "f64_div (Fin a) _ = Fin 0"
| "f64_div x (Fin b) = (if b < 0 then f64_neg x else x)"
| "f64_div _ _ = NaN"

fun f64_less :: "f64 \<Rightarrow> f64 \<Rightarrow> bool" where
  "f64_less (Fin a) (Fin b) = (a < b)"
| "f64_less NaN _ = False"
| "f64_less _ NaN = False"
| "f64_less NInf y = (y \<noteq> NInf)"
| "f64_less x PInf = (x \<noteq> PInf)"
| "f64_less _ _ = False"

fun f64_floor :: "f64 \<Rightarrow> f64" where
  "f64_floor (Fin a) = Fin (of_int \<lfloor>a\<rfloor>)"
| "f64_floor x = x"

text \<open>
  Conversion to an integer truncates towards zero.  Go leaves the result unspecified
  when the value does not fit (or is not a number); the model takes what the amd64
  instruction delivers, the minimum integer.
\<close>

fun f64_to_int :: "f64 \<Rightarrow> int" where
  "f64_to_int (Fin a) =
     (let t = (if 0 \<le> a then \<lfloor>a\<rfloor> else \<lceil>a\<rceil>)
      in if minInt64 \<le> t \<and> t \<le> maxInt64 then t else minInt64)"
| "f64_to_int _ = minInt64"

text \<open>\<open>math.Mod\<close> (exact, with the sign of the dividend) and \<open>math.Round\<close> (halves away from zero).\<close>

fun f64_Mod :: "f64 \<Rightarrow> f64 \<Rightarrow> f64" where
  "f64_Mod (Fin a) (Fin b) =
     (if b = 0 then NaN
      else Fin (a - b * of_int (let q = a / b in if 0 \<le> q then \<lfloor>q\<rfloor> else \<lceil>q\<rceil>)))"
| "f64_Mod NaN _ = NaN"
| "f64_Mod _ NaN = NaN"
| "f64_Mod (Fin a) _ = Fin a"
| "f64_Mod _ _ = NaN"

fun f64_Round :: "f64 \<Rightarrow> f64" where
  "f64_Round (Fin a) = Fin (of_int (if 0 \<le> a then \<lfloor>a + 1 / 2\<rfloor> else \<lceil>a - 1 / 2\<rceil>))"
| "f64_Round x = x"

section \<open>Text formatting\<close>

text \<open>
  Strings are byte strings, as in Go.  The functions of this section model the verbs of
  \<open>fmt.Sprintf\<close> the code uses (\<open>%d\<close>, \<open>%4d\<close>, \<open>%.0f\<close>, \<open>%2.0f\<close>, \<open>%.1f\<close>) and
  \<open>time.Duration.String\<close>.  A float is printed from the exact value it holds, the
  last digit rounded to nearest, ties to even.
\<close>

fun dec :: "nat \<Rightarrow> string" where
  "dec n = (if n < 10 then [''0123456789'' ! n]
            else dec (n div 10) @ [''0123456789'' ! (n mod 10)])"

declare dec.simps [simp del]

definition pad_left :: "nat \<Rightarrow> char \<Rightarrow> string \<Rightarrow> string" where
  "pad_left w c s = replicate (w - length s) c @ s"

definition sprintf_d :: "nat \<Rightarrow> int \<Rightarrow> string" where
  \<comment> \<open>\<open>%wd\<close>: decimal, right-aligned in at least \<open>w\<close> columns\<close>
  "sprintf_d w n = pad_left w CHR '' '' ((if n < 0 then ''-'' else []) @ dec (nat \<bar>n\<bar>))"

definition fixed :: "nat \<Rightarrow> rat \<Rightarrow> string" where
  "fixed prec a =
     (let n = nat (round_even (\<bar>a\<bar> * 10 ^ prec))
      in (if a < 0 then ''-'' else []) @ dec (n div 10 ^ prec) @
         (if prec = 0 then [] else ''.'' @ pad_left prec CHR ''0'' (dec (n mod 10 ^ prec))))"

fun sprintf_f :: "nat \<Rightarrow> nat \<Rightarrow> f64 \<Rightarrow> string" where
  \<comment> \<open>\<open>%w.pf\<close>\<close>
  "sprintf_f w prec (Fin a) = pad_left w CHR '' '' (fixed prec a)"
| "sprintf_f w prec PInf = pad_left w CHR '' '' ''+Inf''"
| "sprintf_f w prec NInf = pad_left w CHR '' '' ''-Inf''"
| "sprintf_f w prec NaN = pad_left w CHR '' '' ''NaN''"

definition fmtFrac :: "nat \<Rightarrow> nat \<Rightarrow> string" where
  \<comment> \<open>the fraction \<open>v mod 10 ^ prec\<close> with its decimal point and without trailing
      zeros; nothing when the fraction is zero\<close>
  "fmtFrac v prec =
     (let f = v mod 10 ^ prec
      in if f = 0 then []
         else ''.'' @ rev (dropWhile (\<lambda>c. c = CHR ''0'') (rev (pad_left prec CHR ''0'' (dec f)))))"

definition duration_String :: "int \<Rightarrow> string" where
  "duration_String d =
     (let u = nat \<bar>d\<bar>
      in if u = 0 then ''0s''
         else (if d < 0 then ''-'' else []) @
           (if u < 10 ^ 9 then
              (if u < 10 ^ 3 then dec u @ ''ns''
               else if u < 10 ^ 6 then dec (u div 10 ^ 3) @ fmtFrac u 3 @ [CHR 0xC2, CHR 0xB5] @ ''s''
               else dec (u div 10 ^ 6) @ fmtFrac u 6 @ ''ms'')
            else
              (let secs = u div 10 ^ 9;
                   s = dec (secs mod 60) @ fmtFrac u 9 @ ''s'';
                   m = secs div 60
               in if 0 < m then
                    (if 0 < m div 60 then dec (m div 60) @ ''h'' else []) @ dec (m mod 60) @ ''m'' @ s
                  else s)))"

text \<open>The methods of \<open>time.Duration\<close> (an \<open>int64\<close> count of nanoseconds) the code calls.\<close>

definition Seconds :: "int \<Rightarrow> f64" where
  "Seconds d = f64_add (f64_of_int (quot d 1000000000))
                       (f64_div (f64_of_int (rem d 1000000000)) (Fin 1000000000))"

definition Milliseconds :: "int \<Rightarrow> int" where
  "Milliseconds d = quot d 1000000"

text \<open>
  Times are nanoseconds on the clock's scale.  \<open>Time.Sub\<close> saturates at the bounds of
  \<open>Duration\<close>; the zero \<open>time.Time{}\<close> is the first instant of year 1, far before
  any reading of the clock.
\<close>

definition Sub :: "int \<Rightarrow> int \<Rightarrow> int" where
  "Sub t u = max minInt64 (min maxInt64 (t - u))"

definition zeroTime :: int where
  "zeroTime = - 62135596800 * 1000000000"


section \<open>Byte counts for the reader\<close>

text \<open>
  \<open>logn\<close> divides two results of \<open>math.Log\<close>.  The Go library does not fix the last
  bits of \<open>math.Log\<close>, and the unit \<open>humanizeBytes\<close> picks depends on them just below a
  power of 1024, so the function is a parameter \<open>lg\<close> here, which the environment
  supplies; the division and \<open>math.Floor\<close> are those of \<open>float64\<close>.  \<open>math.Pow\<close> of
  1024 to a small whole exponent is exact.  A result of \<open>None\<close> stands for the run-time
  panic of an index outside \<open>sizes\<close>.
\<close>

definition sizes :: "string list" where
  "sizes = ['' B'', '' KB'', '' MB'', '' GB'', '' TB'', '' PB'', '' EB'']"

definition logn :: "(f64 \<Rightarrow> f64) \<Rightarrow> f64 \<Rightarrow> f64 \<Rightarrow> f64" where
  "logn lg n b = f64_div (lg n) (lg b)"

definition scaled :: "f64 \<Rightarrow> nat \<Rightarrow> f64" where
  \<comment> \<open>\<open>val\<close> in the code: the value in units of \<open>1024 ^ i\<close>, rounded to a tenth\<close>
  "scaled s i =
     f64_div (f64_floor (f64_add (f64_mul (f64_div s (Fin (1024 ^ i))) (Fin 10)) (Fin (1 / 2))))
             (Fin 10)"

definition humanizeBytes :: "(f64 \<Rightarrow> f64) \<Rightarrow> f64 \<Rightarrow> (string \<times> string) option" where
  "humanizeBytes lg s =
     (if f64_less s (Fin 10) then Some (sprintf_f 2 0 s, sizes ! 0)
      else
        let e = f64_floor (logn lg s (Fin 1024)); i = f64_to_int e
        in if 0 \<le> i \<and> i < int (length sizes) then
             let suffix = sizes ! nat i;
                 val = scaled s (nat i);
                 prec = (if f64_less val (Fin 10) then 1 else 0)
             in Some (sprintf_f 0 prec val, suffix)
           else None)"

definition average :: "f64 list \<Rightarrow> f64" where
  "average xs = f64_div (foldl f64_add (Fin 0) xs) (f64_of_int (int (length xs)))"

section \<open>The progress bar's data\<close>

text \<open>
  A writer is known by what it does with a string, given the strings it has taken so
  far: it takes the string or fails.  The completion callback is known by a handle; the
  environment logs each call of it.
\<close>

type_synonym writer = "string list \<Rightarrow> string \<Rightarrow> bool"

record Theme =
  Saucer :: string
  AltSaucerHead :: string
  SaucerHead :: string
  SaucerPadding :: string
  BarStart :: string
  BarEnd :: string

record state =
  currentNum :: int
  currentPercent :: int
  lastPercent :: int
  currentSaucerSize :: int
  isAltSaucerHead :: bool
  startTime :: int
  lastShown :: int
  counterTime :: int
  counterNumSinceLast :: int
  counterLastTenRates :: "f64 list"
  maxLineWidth :: int
  currentBytes :: f64
  finished :: bool
  exit :: bool
  rendered :: string

record config =
  max_c :: int
  maxHumanized :: string
  maxHumanizedSuffix :: string
  width :: int
  writer :: writer
  theme :: Theme
  renderWithBlankState :: bool
  description :: string
  ignoreLength :: bool
  throttleDuration :: int
  spinnerType :: int
  elapsedTime :: bool
  predictTime :: bool
  showBytes :: bool
  showIterationsCount :: bool
  showDescriptionAtLineEnd :: bool
  onCompletion :: "nat option"
  fullWidth :: bool
  useANSICodes :: bool
  clearOnFinish :: bool
  colorCodes :: bool

record ProgressBar =
  state :: state
  config :: config

text \<open>
  What the code reaches outside itself: the clock (each reading takes the next value
  of \<open>clock\<close>), the strings the writer has taken, the callbacks called, the terminal
  sizes \<open>term.GetSize\<close> reports for standard output and standard error (\<open>None\<close>: an
  error), and the parts of other packages and files the code uses as they are:
  \<open>colorstring.Color\<close>, \<open>runewidth.StringWidth\<close>, the table \<open>spinners\<close> (an absent
  entry is the empty list), the writer \<open>os.Stdout\<close> and the library's \<open>math.Log\<close>.
\<close>

record env =
  clock :: "nat \<Rightarrow> int"
  reads :: nat
  written :: "string list"
  called :: "nat list"
  stdout_size :: "int option"
  stderr_size :: "int option"
  Color :: "string \<Rightarrow> string"
  StringWidth :: "string \<Rightarrow> int"
  spinners :: "int \<Rightarrow> string list"
  os_Stdout :: writer
  math_Log :: "f64 \<Rightarrow> f64"

datatype error = ErrMaxZero | ErrExceedsMax | ErrWrite

text \<open>
  \<open>ErrMaxZero\<close> is the error "max must be greater than 0", \<open>ErrExceedsMax\<close> is
  "current number exceeds max", \<open>ErrWrite\<close> is whatever error the writer gave.  A call
  either returns (an error or nil) or panics; the state is given as the call left it in
  both cases.
\<close>

datatype outcome = Returned "error option" | Panicked

definition Now :: "env \<Rightarrow> int \<times> env" where
  "Now e = (clock e (reads e), e\<lparr>reads := Suc (reads e)\<rparr>)"

definition Since :: "int \<Rightarrow> env \<Rightarrow> int \<times> env" where
  "Since t e = (let (n, e') = Now e in (Sub n t, e'))"

datatype Option =
    OptionSetWidth int
  | OptionSpinnerType int
  | OptionSetTheme Theme
  | OptionSetDescription string
  | OptionSetWriter writer
  | OptionShowBytes bool
  | OptionThrottle int
  | OptionShowCount
  | OptionOnCompletion "nat option"
  | OptionFullWidth
  | OptionSetRenderBlankState bool
  | OptionEnableColorCodes bool

fun apply_Option :: "Option \<Rightarrow> config \<Rightarrow> config" where
  "apply_Option (OptionSetWidth w) c = c\<lparr>width := w\<rparr>"
| "apply_Option (OptionSpinnerType t) c = c\<lparr>spinnerType := t\<rparr>"
| "apply_Option (OptionSetTheme t) c = c\<lparr>theme := t\<rparr>"
| "apply_Option (OptionSetDescription d) c = c\<lparr>description := d\<rparr>"
| "apply_Option (OptionSetWriter w) c = c\<lparr>writer := w\<rparr>"
| "apply_Option (OptionShowBytes v) c = c\<lparr>showBytes := v\<rparr>"
| "apply_Option (OptionThrottle d) c = c\<lparr>throttleDuration := d\<rparr>"
| "apply_Option OptionShowCount c = c\<lparr>showIterationsCount := True\<rparr>"
| "apply_Option (OptionOnCompletion f) c = c\<lparr>onCompletion := f\<rparr>"
| "apply_Option OptionFullWidth c = c\<lparr>fullWidth := True\<rparr>"
| "apply_Option (OptionSetRenderBlankState r) c = c\<lparr>renderWithBlankState := r\<rparr>"
| "apply_Option (OptionEnableColorCodes v) c = c\<lparr>colorCodes := v\<rparr>"

definition defaultTheme :: Theme where
  "defaultTheme = \<lparr>Saucer = [CHR 0xE2, CHR 0x96, CHR 0x88], AltSaucerHead = [], SaucerHead = [],
                    SaucerPadding = '' '', BarStart = ''|'', BarEnd = ''|''\<rparr>"

definition getBasicState :: "env \<Rightarrow> state \<times> env" where
  "getBasicState e =
     (let (now, e') = Now e
      in (\<lparr>currentNum = 0, currentPercent = 0, lastPercent = 0, currentSaucerSize = 0,
           isAltSaucerHead = False, startTime = now, lastShown = now, counterTime = now,
           counterNumSinceLast = 0, counterLastTenRates = [], maxLineWidth = 0,
           currentBytes = Fin 0, finished = False, exit = False, rendered = []\<rparr>, e'))"


section \<open>Writing\<close>

definition writeString :: "config \<Rightarrow> string \<Rightarrow> env \<Rightarrow> error option \<times> env" where
  "writeString c str e =
     (if writer c (written e) str then (None, e\<lparr>written := written e @ [str]\<rparr>)
      else (Some ErrWrite, e))"

definition Repeat :: "string \<Rightarrow> int \<Rightarrow> string" where
  \<comment> \<open>\<open>strings.Repeat\<close> for a count that is not negative (a negative count panics)\<close>
  "Repeat s n = concat (replicate (nat n) s)"

definition clearProgressBar :: "config \<Rightarrow> state \<Rightarrow> env \<Rightarrow> outcome \<times> env" where
  "clearProgressBar c s e =
     (if maxLineWidth s = 0 then (Returned None, e)
      else if useANSICodes c then
        (let (r, e') = writeString c [CHR 0x1B, CHR ''['', CHR ''2'', CHR ''K'', CHR 0x0D] e
         in (Returned r, e'))
      else if maxLineWidth s < 0 then (Panicked, e)
      else
        (let (r, e') = writeString c ([CHR 0x0D] @ Repeat '' '' (maxLineWidth s) @ [CHR 0x0D]) e
         in (Returned r, e')))"

section \<open>The width of a string on the screen\<close>

definition ansi_param :: "char \<Rightarrow> bool" where
  "ansi_param ch = (ch \<in> set ''0123456789;'')"

definition ansi_final :: "char \<Rightarrow> bool" where
  "ansi_final ch = (ch \<in> set ''abcdefghijklmnopqrstuvwxyzABCDEFGHIJKLMNOPQRSTUVWXYZ'')"

function strip_ansi :: "string \<Rightarrow> string" where
  \<comment> \<open>\<open>ansiRegex.ReplaceAllString(s, "")\<close> for the expression \<open>\x1b\[[0-9;]*[a-zA-Z]\<close>\<close>
  "strip_ansi [] = []"
| "strip_ansi (ch # cs) =
     (if ch = CHR 0x1B \<and> cs \<noteq> [] \<and> hd cs = CHR ''[''
         \<and> dropWhile ansi_param (tl cs) \<noteq> [] \<and> ansi_final (hd (dropWhile ansi_param (tl cs)))
      then strip_ansi (tl (dropWhile ansi_param (tl cs)))
      else ch # strip_ansi cs)"
  by pat_completeness auto
termination
proof (relation "measure length")
  fix ch :: char and cs :: string
  assume "ch = CHR 0x1B \<and> cs \<noteq> [] \<and> hd cs = CHR ''[''
         \<and> dropWhile ansi_param (tl cs) \<noteq> [] \<and> ansi_final (hd (dropWhile ansi_param (tl cs)))"
  have "length (dropWhile ansi_param (tl cs)) \<le> length (tl cs)"
    by (rule length_dropWhile_le)
  then show "(tl (dropWhile ansi_param (tl cs)), ch # cs) \<in> measure length"
    by simp
qed simp_all

definition getStringWidth :: "config \<Rightarrow> env \<Rightarrow> string \<Rightarrow> int" where
  "getStringWidth c e str =
     (let str1 = (if colorCodes c then Color e str else str);
          cleanString = filter (\<lambda>ch. ch \<noteq> CHR 0x0D) str1;
          cleanString' = (if colorCodes c then strip_ansi cleanString else cleanString)
      in StringWidth e cleanString')"

definition termWidth :: "env \<Rightarrow> int \<times> bool" where
  \<comment> \<open>the width and whether an error is returned: never, as the code is written\<close>
  "termWidth e =
     (case stdout_size e of Some w \<Rightarrow> (w, False)
      | None \<Rightarrow> (case stderr_size e of Some w \<Rightarrow> (w, False) | None \<Rightarrow> (0, False)))"


section \<open>Drawing the line\<close>

definition averageRate :: "state \<Rightarrow> env \<Rightarrow> f64 \<times> env" where
  "averageRate s e =
     (if counterLastTenRates s = [] \<or> finished s then
        (let (d, e') = Since (startTime s) e; t = Seconds d
         in (if f64_less (Fin 0) t then f64_div (currentBytes s) t else Fin 0, e'))
      else (average (counterLastTenRates s), e))"

definition count_text :: "(f64 \<Rightarrow> f64) \<Rightarrow> config \<Rightarrow> state \<Rightarrow> string option" where
  "count_text lg c s =
     (if showIterationsCount c then
        (if \<not> ignoreLength c then
           (if showBytes c then
              (case humanizeBytes lg (currentBytes s) of
                 None \<Rightarrow> None
               | Some (currentHumanize, currentSuffix) \<Rightarrow>
                   Some (''('' @
                     (if currentSuffix = maxHumanizedSuffix c
                      then currentHumanize @ ''/'' @ maxHumanized c @ maxHumanizedSuffix c
                      else currentHumanize @ currentSuffix @ ''/'' @ maxHumanized c @ maxHumanizedSuffix c)))
            else Some (''('' @ sprintf_f 0 0 (currentBytes s) @ ''/'' @ sprintf_d 0 (max_c c)))
         else
           (if showBytes c then
              (case humanizeBytes lg (currentBytes s) of
                 None \<Rightarrow> None
               | Some (currentHumanize, currentSuffix) \<Rightarrow> Some (''('' @ currentHumanize @ currentSuffix))
            else Some (''('' @ sprintf_f 0 0 (currentBytes s) @ ''/-'')))
      else Some [])"

definition rate_text :: "(f64 \<Rightarrow> f64) \<Rightarrow> config \<Rightarrow> f64 \<Rightarrow> string \<Rightarrow> string option" where
  "rate_text lg c avg sb =
     (if showBytes c \<and> f64_less (Fin 0) avg \<and> avg \<noteq> PInf then
        (case humanizeBytes lg avg of
           None \<Rightarrow> None
         | Some (currentHumanize, currentSuffix) \<Rightarrow>
             Some (sb @ (if sb = [] then ''('' else '', '') @ currentHumanize @ currentSuffix @ ''/s''))
      else Some sb)"

definition info :: "(f64 \<Rightarrow> f64) \<Rightarrow> config \<Rightarrow> state \<Rightarrow> f64 \<Rightarrow> string option" where
  \<comment> \<open>the text in parentheses, \<open>sb\<close> in the code; \<open>None\<close> when \<open>humanizeBytes\<close> panics\<close>
  "info lg c s avg =
     (case count_text lg c s of
        None \<Rightarrow> None
      | Some sb \<Rightarrow>
          (case rate_text lg c avg sb of
             None \<Rightarrow> None
           | Some sb' \<Rightarrow> Some (if sb' = [] then [] else sb' @ '')'')))"

definition rightBrac_text :: "config \<Rightarrow> state \<Rightarrow> f64 \<Rightarrow> string" where
  "rightBrac_text c s avg =
     (if predictTime c then
        (let rightBracNum =
               i64 (f64_to_int (f64_mul (f64_div (Fin 1) avg)
                                  (f64_sub (f64_of_int (max_c c)) (f64_of_int (currentNum s))))
                    * 1000000000)
         in duration_String (if f64_less (Seconds rightBracNum) (Fin 0) then 0 else rightBracNum))
      else [])"

definition leftBrac_text :: "config \<Rightarrow> state \<Rightarrow> env \<Rightarrow> string \<times> env" where
  "leftBrac_text c s e =
     (if predictTime c \<or> elapsedTime c then
        (let (d, e') = Since (startTime s) e
         in (duration_String (i64 (f64_to_int (Seconds d) * 1000000000)), e'))
      else ([], e))"

definition fitted_width :: "config \<Rightarrow> env \<Rightarrow> string \<Rightarrow> string \<Rightarrow> string \<Rightarrow> int" where
  "fitted_width c e sb leftBrac rightBrac =
     (let (w, err) = termWidth e;
          width = (if err then 80 else w);
          amend = (if leftBrac \<noteq> [] \<and> rightBrac \<noteq> [] then 4
                   else if leftBrac \<noteq> [] \<and> rightBrac = [] then 4
                   else if leftBrac = [] \<and> rightBrac \<noteq> [] then 3
                   else 1);
          amend' = (if showDescriptionAtLineEnd c then amend + 1 else amend)
      in i64 (width - getStringWidth c e (description c) - 10 - amend' - int (length sb)
              - int (length leftBrac) - int (length rightBrac)))"

definition saucer_parts :: "config \<Rightarrow> state \<Rightarrow> string \<times> string \<times> bool" where
  \<comment> \<open>\<open>saucer\<close>, \<open>saucerHead\<close> and the new \<open>isAltSaucerHead\<close>\<close>
  "saucer_parts c s =
     (if 0 < currentSaucerSize s then
        (let saucer = Repeat (if ignoreLength c then SaucerPadding (theme c) else Saucer (theme c))
                             (currentSaucerSize s - 1)
         in if AltSaucerHead (theme c) \<noteq> [] \<and> isAltSaucerHead s then
              (saucer, AltSaucerHead (theme c), False)
            else if SaucerHead (theme c) = [] \<or> currentSaucerSize s = width c then
              (saucer, Saucer (theme c), isAltSaucerHead s)
            else (saucer, SaucerHead (theme c), True))
      else ([], [], isAltSaucerHead s))"

definition spinner_frame :: "config \<Rightarrow> state \<Rightarrow> env \<Rightarrow> string option \<times> env" where
  \<comment> \<open>\<open>None\<close>: the index is outside the frames of the spinner, a panic\<close>
  "spinner_frame c s e =
     (let (d, e') = Since (startTime s) e;
          frames = spinners e (spinnerType c);
          i = f64_to_int (f64_Round (f64_Mod (f64_of_int (quot (Milliseconds d) 100))
                                             (f64_of_int (int (length frames)))))
      in (if 0 \<le> i \<and> i < int (length frames) then Some (frames ! nat i) else None, e'))"

definition spinner_line :: "config \<Rightarrow> string \<Rightarrow> string \<Rightarrow> string \<Rightarrow> string" where
  "spinner_line c spinner sb leftBrac =
     (if elapsedTime c then
        (if showDescriptionAtLineEnd c then
           [CHR 0x0D] @ spinner @ '' '' @ sb @ '' ['' @ leftBrac @ ''] '' @ description c @ '' ''
         else
           [CHR 0x0D] @ spinner @ '' '' @ description c @ '' '' @ sb @ '' ['' @ leftBrac @ ''] '')
      else
        (if showDescriptionAtLineEnd c then
           [CHR 0x0D] @ spinner @ '' '' @ sb @ '' '' @ description c @ '' ''
         else
           [CHR 0x0D] @ spinner @ '' '' @ description c @ '' '' @ sb @ '' ''))"

definition bar_text :: "config \<Rightarrow> state \<Rightarrow> string \<Rightarrow> string \<Rightarrow> int \<Rightarrow> string \<Rightarrow> string" where
  \<comment> \<open>the format \<open>%4d%% %s%s%s%s%s %s\<close> of all three layouts of a bar of known length\<close>
  "bar_text c s saucer saucerHead repeatAmount sb =
     sprintf_d 4 (currentPercent s) @ ''% '' @ BarStart (theme c) @ saucer @ saucerHead @
     Repeat (SaucerPadding (theme c)) repeatAmount @ BarEnd (theme c) @ '' '' @ sb"

definition bar_line ::
    "config \<Rightarrow> state \<Rightarrow> string \<Rightarrow> string \<Rightarrow> int \<Rightarrow> string \<Rightarrow> string \<Rightarrow> string \<Rightarrow> string" where
  "bar_line c s saucer saucerHead repeatAmount sb leftBrac rightBrac =
     (if rightBrac = [] then
        (let str = bar_text c s saucer saucerHead repeatAmount sb
         in if showDescriptionAtLineEnd c then [CHR 0x0D] @ str @ '' '' @ description c @ '' ''
            else [CHR 0x0D] @ description c @ str @ '' '')
      else
        (let str = (if currentPercent s = 100 then bar_text c s saucer saucerHead repeatAmount sb
                    else bar_text c s saucer saucerHead repeatAmount sb
                         @ '' ['' @ leftBrac @ '':'' @ rightBrac @ '']'')
         in if showDescriptionAtLineEnd c then [CHR 0x0D] @ str @ '' '' @ description c
            else [CHR 0x0D] @ description c @ str))"

definition emit :: "config \<Rightarrow> string \<Rightarrow> state \<Rightarrow> env \<Rightarrow> (int \<times> outcome) \<times> state \<times> env" where
  \<comment> \<open>the end of \<open>renderProgressBar\<close>, from the colour codes on\<close>
  "emit c str s e =
     (let str' = (if colorCodes c then Color e str else str);
          (r, e') = writeString c str' e
      in ((getStringWidth c e str', Returned r), s\<lparr>rendered := str'\<rparr>, e'))"

definition renderProgressBar :: "config \<Rightarrow> state \<Rightarrow> env \<Rightarrow> (int \<times> outcome) \<times> state \<times> env" where
  "renderProgressBar c s e =
     (let (avg, e1) = averageRate s e
      in case info (math_Log e1) c s avg of
           None \<Rightarrow> ((0, Panicked), s, e1)
         | Some sb \<Rightarrow>
             let rightBrac = rightBrac_text c s avg;
                 (leftBrac, e2) = leftBrac_text c s e1;
                 fit = (fullWidth c \<and> \<not> ignoreLength c);
                 c' = (if fit then c\<lparr>width := fitted_width c e2 sb leftBrac rightBrac\<rparr> else c);
                 s1 = (if fit
                       then s\<lparr>currentSaucerSize :=
                                f64_to_int (f64_mul (f64_div (f64_of_int (currentPercent s)) (Fin 100))
                                                    (f64_of_int (width c')))\<rparr>
                       else s);
                 (saucer, saucerHead, alt) = saucer_parts c' s1;
                 s2 = s1\<lparr>isAltSaucerHead := alt\<rparr>;
                 repeatAmount = max 0 (i64 (width c' - currentSaucerSize s2))
             in if ignoreLength c' then
                  (let (sp, e3) = spinner_frame c' s2 e2
                   in case sp of
                        None \<Rightarrow> ((0, Panicked), s2, e3)
                      | Some spinner \<Rightarrow> emit c' (spinner_line c' spinner sb leftBrac) s2 e3)
                else emit c' (bar_line c' s2 saucer saucerHead repeatAmount sb leftBrac rightBrac) s2 e2)"

section \<open>Rendering\<close>

definition finish :: "config \<Rightarrow> state \<Rightarrow> env \<Rightarrow> outcome \<times> state \<times> env" where
  \<comment> \<open>the body of the test "is the progress bar finished" of \<open>render\<close>\<close>
  "finish c s e =
     (let s1 = s\<lparr>finished := True\<rparr>;
          (r, s2, e1) = (if \<not> clearOnFinish c
                         then (let ((w, r'), s', e') = renderProgressBar c s1 e in (r', s', e'))
                         else (Returned None, s1, e))
      in if r = Panicked then (Panicked, s2, e1)
         else (case onCompletion c of
                 None \<Rightarrow> (Returned None, s2, e1)
               | Some f \<Rightarrow> (Returned None, s2, e1\<lparr>called := called e1 @ [f]\<rparr>)))"

definition render :: "config \<Rightarrow> state \<Rightarrow> env \<Rightarrow> outcome \<times> state \<times> env" where
  "render c s e =
     (let (d, e1) = Since (lastShown s) e
      in if d < throttleDuration c \<and> currentNum s < max_c c then (Returned None, s, e1)
         else
           let (r1, e2) = (if \<not> useANSICodes c then clearProgressBar c s e1 else (Returned None, e1))
           in if r1 \<noteq> Returned None then (r1, s, e2)
              else
                let (r2, s2, e3) = (if \<not> finished s \<and> max_c c \<le> currentNum s then finish c s e2
                                    else (Returned None, s, e2))
                in if r2 = Panicked then (Panicked, s2, e3)
                   else if finished s2 then
                     (if useANSICodes c \<and> clearOnFinish c
                      then (let (r3, e4) = clearProgressBar c s2 e3 in (r3, s2, e4))
                      else (Returned None, s2, e3))
                   else
                     let ((w, r4), s3, e4) = renderProgressBar c s2 e3
                     in if r4 \<noteq> Returned None then (r4, s3, e4)
                        else
                          let s4 = (if maxLineWidth s3 < w then s3\<lparr>maxLineWidth := w\<rparr> else s3);
                              (now, e5) = Now e4
                          in (Returned None, s4\<lparr>lastShown := now\<rparr>, e5))"

definition RenderBlank :: "ProgressBar \<Rightarrow> env \<Rightarrow> outcome \<times> ProgressBar \<times> env" where
  "RenderBlank p e =
     (let s = (if currentNum (state p) = 0 then (state p)\<lparr>lastShown := zeroTime\<rparr> else state p);
          (r, s', e') = render (config p) s e
      in (r, p\<lparr>state := s'\<rparr>, e'))"

section \<open>Adding to the bar\<close>

definition count_step :: "int \<Rightarrow> config \<Rightarrow> state \<Rightarrow> state" where
  \<comment> \<open>the counter and the byte total\<close>
  "count_step num c s =
     (let s1 = (if currentNum s < max_c c then
                  (if ignoreLength c
                   then s\<lparr>currentNum := rem (i64 (currentNum s + num)) (max_c c)\<rparr>
                   else s\<lparr>currentNum := i64 (currentNum s + num)\<rparr>)
                else s)
      in s1\<lparr>currentBytes := f64_add (currentBytes s1) (f64_of_int num)\<rparr>)"

definition rate_step :: "int \<Rightarrow> state \<Rightarrow> env \<Rightarrow> state \<times> env" where
  \<comment> \<open>the window of the rolling average\<close>
  "rate_step num s e =
     (let s1 = s\<lparr>counterNumSinceLast := i64 (counterNumSinceLast s + num)\<rparr>;
          (d, e1) = Since (counterTime s1) e
      in if f64_less (Fin (1 / 2)) (Seconds d) then
           (let (d', e2) = Since (counterTime s1) e1;
                rates = counterLastTenRates s1
                        @ [f64_div (f64_of_int (counterNumSinceLast s1)) (Seconds d')];
                rates' = (if 10 < length rates then tl rates else rates);
                (now, e3) = Now e2
            in (s1\<lparr>counterLastTenRates := rates', counterTime := now, counterNumSinceLast := 0\<rparr>, e3))
         else (s1, e1))"

definition percent_step :: "config \<Rightarrow> state \<Rightarrow> bool \<times> state" where
  \<comment> \<open>the percentage, the size of the saucer and \<open>updateBar\<close>\<close>
  "percent_step c s =
     (let percent = f64_div (f64_of_int (currentNum s)) (f64_of_int (max_c c));
          s1 = s\<lparr>currentSaucerSize := f64_to_int (f64_mul percent (f64_of_int (width c))),
                  currentPercent := f64_to_int (f64_mul percent (Fin 100))\<rparr>;
          updateBar = (currentPercent s1 \<noteq> lastPercent s1 \<and> 0 < currentPercent s1)
      in (updateBar, s1\<lparr>lastPercent := currentPercent s1\<rparr>))"

definition bookkeeping :: "int \<Rightarrow> config \<Rightarrow> state \<Rightarrow> env \<Rightarrow> bool \<times> state \<times> env" where
  \<comment> \<open>\<open>Add64\<close> from the test of the counter to the assignment of \<open>lastPercent\<close>;
      the first component is \<open>updateBar\<close>\<close>
  "bookkeeping num c s e =
     (let (s2, e1) = rate_step num (count_step num c s) e;
          (updateBar, s3) = percent_step c s2
      in (updateBar, s3, e1))"

definition Add64 :: "int \<Rightarrow> ProgressBar \<Rightarrow> env \<Rightarrow> outcome \<times> ProgressBar \<times> env" where
  "Add64 num p e =
     (if exit (state p) then (Returned None, p, e)
      else if max_c (config p) = 0 then (Returned (Some ErrMaxZero), p, e)
      else
        let c = config p;
            (updateBar, s3, e1) = bookkeeping num c (state p) e
        in if max_c c < currentNum s3 then (Returned (Some ErrExceedsMax), p\<lparr>state := s3\<rparr>, e1)
           else if updateBar \<or> showIterationsCount c then
             (let (r, s4, e2) = render c s3 e1 in (r, p\<lparr>state := s4\<rparr>, e2))
           else (Returned None, p\<lparr>state := s3\<rparr>, e1))"

definition Add :: "int \<Rightarrow> ProgressBar \<Rightarrow> env \<Rightarrow> outcome \<times> ProgressBar \<times> env" where
  "Add num p e = Add64 num p e"

definition String :: "ProgressBar \<Rightarrow> string" where
  "String p = rendered (state p)"

section \<open>Construction\<close>

definition NewOptions64 :: "int \<Rightarrow> Option list \<Rightarrow> env \<Rightarrow> (ProgressBar \<times> env) option" where
  \<comment> \<open>\<open>None\<close>: the constructor panics\<close>
  "NewOptions64 mx options e =
     (let (st, e1) = getBasicState e;
          c0 = \<lparr>max_c = mx, maxHumanized = [], maxHumanizedSuffix = [], width = 40,
                writer = os_Stdout e, theme = defaultTheme, renderWithBlankState = False,
                description = [], ignoreLength = False, throttleDuration = 0, spinnerType = 9,
                elapsedTime = True, predictTime = True, showBytes = False,
                showIterationsCount = False, showDescriptionAtLineEnd = False,
                onCompletion = None, fullWidth = False, useANSICodes = False,
                clearOnFinish = False, colorCodes = False\<rparr>;
          c1 = foldl (\<lambda>c opt. apply_Option opt c) c0 options
      in if spinnerType c1 < 0 \<or> 75 < spinnerType c1 then None
         else
           let c2 = (if max_c c1 = - 1
                     then c1\<lparr>ignoreLength := True, max_c := width c1, predictTime := False\<rparr>
                     else c1)
           in case humanizeBytes (math_Log e) (f64_of_int (max_c c2)) of
                None \<Rightarrow> None
              | Some (h, sfx) \<Rightarrow>
                  let p = \<lparr>state = st, config = c2\<lparr>maxHumanized := h, maxHumanizedSuffix := sfx\<rparr>\<rparr>
                  in if renderWithBlankState (config p) then
                       (case RenderBlank p e1 of
                          (Panicked, p', e2) \<Rightarrow> None
                        | (Returned r, p', e2) \<Rightarrow> Some (p', e2))
                     else Some (p, e1))"


section \<open>Runs, reachable bars and frames\<close>

text \<open>
  A run of calls of \<open>Add64\<close>, with the outcome of each.  A caller that recovers from a
  panic can call again, and the run goes on from the state the panic left.
\<close>

fun Adds :: "int list \<Rightarrow> ProgressBar \<Rightarrow> env \<Rightarrow> outcome list \<times> ProgressBar \<times> env" where
  "Adds [] p e = ([], p, e)"
| "Adds (n # ns) p e =
     (case Add64 n p e of (r, p', e') \<Rightarrow>
        (case Adds ns p' e' of (rs, p'', e'') \<Rightarrow> (r # rs, p'', e'')))"

text \<open>
  The bars a program can hold: made by \<open>NewOptions64\<close>, changed by \<open>Add64\<close>, and halted
  from outside (no function of the package sets \<open>exit\<close>).
\<close>

inductive tracker :: "ProgressBar \<Rightarrow> bool" where
  new: "NewOptions64 mx opts e = Some (p, e') \<Longrightarrow> tracker p"
| add: "tracker p \<Longrightarrow> Add64 n p e = (r, p', e') \<Longrightarrow> tracker p'"
| halt: "tracker p \<Longrightarrow> tracker (p\<lparr>state := (state p)\<lparr>exit := True\<rparr>\<rparr>)"

text \<open>The parts of the state and of the environment that drawing the line leaves alone.\<close>

definition drawn :: "state \<Rightarrow> state" where
  "drawn s = s\<lparr>currentSaucerSize := 0, isAltSaucerHead := False, rendered := []\<rparr>"

definition kept :: "state \<Rightarrow> state" where
  "kept s = s\<lparr>currentSaucerSize := 0, isAltSaucerHead := False, rendered := [],
               finished := False, maxLineWidth := 0, lastShown := 0\<rparr>"

definition outside :: "env \<Rightarrow> env" where
  "outside e = e\<lparr>reads := 0, written := [], called := []\<rparr>"

text \<open>
  An environment to run examples in: the clock advances 40 ms with each reading, the
  writer takes everything, colour codes are left as they are, a string is as wide as
  it has bytes, one spinner is known, and in place of \<open>math.Log\<close> stands the logarithm
  to base 2 rounded down to a whole number (the quotient of two logarithms, which is
  all the code takes, does not depend on the base).
\<close>

fun example_Log :: "f64 \<Rightarrow> f64" where
  "example_Log (Fin a) = (if 0 < a then Fin (of_int (ilog2 a)) else if a = 0 then NInf else NaN)"
| "example_Log PInf = PInf"
| "example_Log _ = NaN"

definition example_env :: env where
  "example_env =
     \<lparr>clock = (\<lambda>n. int n * 40000000), reads = 0, written = [], called = [],
      stdout_size = None, stderr_size = None, Color = (\<lambda>s. s),
      StringWidth = (\<lambda>s. int (length s)), spinners = (\<lambda>i. [''|'', ''/'', ''-'']),
      os_Stdout = (\<lambda>h s. True), math_Log = example_Log\<rparr>"

definition plain_bar :: "int \<Rightarrow> ProgressBar \<times> env" where
  \<comment> \<open>the bar \<open>NewOptions64 mx\<close> makes without options in the example environment\<close>
  "plain_bar mx = the (NewOptions64 mx [] example_env)"

definition overshot_bar :: "ProgressBar \<times> env" where
  \<comment> \<open>a bar of length 10 after \<open>Add64 11\<close>\<close>
  "overshot_bar = snd (Add64 11 (fst (plain_bar 10)) (snd (plain_bar 10)))"

definition completed_bar :: "ProgressBar \<times> env" where
  \<comment> \<open>a bar of length 50 after 50 calls of \<open>Add64 1\<close>\<close>
  "completed_bar = snd (Adds (replicate 50 1) (fst (plain_bar 50)) (snd (plain_bar 50)))"

definition spinner_bar :: "int \<Rightarrow> ProgressBar \<times> env" where
  \<comment> \<open>the bar of unknown length and width \<open>w\<close> in the example environment\<close>
  "spinner_bar w = the (NewOptions64 (- 1) [OptionSetWidth w] example_env)"

definition slow_env :: env where
  \<comment> \<open>the example environment with a clock that advances a second with each reading\<close>
  "slow_env = example_env\<lparr>clock := (\<lambda>n. int n * 1000000000)\<rparr>"

definition slow_bar :: "ProgressBar \<times> env" where
  "slow_bar = the (NewOptions64 10 [] slow_env)"

section \<open>Facts about the arithmetic\<close>


lemma pow2_powi: "pow2 e = 2 powi e"
  by (simp add: pow2_def power_int_def power_one_over)

lemma pow2_pos: "0 < pow2 e"
  by (simp add: pow2_powi)

lemma pow2_add: "pow2 (a + b) = pow2 a * pow2 b"
  by (simp add: pow2_powi power_int_add)

lemma pow2_mono: "a \<le> b \<Longrightarrow> pow2 a \<le> pow2 b"
  by (simp add: pow2_powi power_int_increasing)

lemma pow2_strict_mono: "a < b \<Longrightarrow> pow2 a < pow2 b"
  by (simp add: pow2_powi power_int_strict_increasing)

lemma pow2_nat: "pow2 (int n) = 2 ^ n"
  by (simp add: pow2_def)

lemma pow2_diff_nat: "pow2 (int a - int b) = 2 ^ a / 2 ^ b"
  by (simp add: pow2_powi power_int_diff)

lemma ilog2_bounds:
  assumes "x \<noteq> 0"
  shows "pow2 (ilog2 x) \<le> \<bar>x\<bar> \<and> \<bar>x\<bar> < pow2 (ilog2 x + 1)"
proof -
  obtain a b where q: "quotient_of \<bar>x\<bar> = (a, b)"
    by (cases "quotient_of \<bar>x\<bar>")
  have b: "0 < b" using quotient_of_denom_pos [OF q] .
  have x: "\<bar>x\<bar> = of_int a / of_int b" using quotient_of_div [OF q] .
  have "0 < \<bar>x\<bar>" using assms by simp
  with x b have a: "0 < a"
    by (simp add: zero_less_divide_iff)
  define la where "la = floorlog 2 (nat a)"
  define lb where "lb = floorlog 2 (nat b)"
  have la: "2 ^ (la - 1) \<le> nat a \<and> nat a < 2 ^ la"
    unfolding la_def using a by (intro floorlog_bounds) auto
  have lb: "2 ^ (lb - 1) \<le> nat b \<and> nat b < 2 ^ lb"
    unfolding lb_def using b by (intro floorlog_bounds) auto
  have la1: "1 \<le> la" using la a by (cases la) auto
  have lb1: "1 \<le> lb" using lb b by (cases lb) auto
  have ra: "(2::rat) ^ (la - 1) \<le> of_int a" "(of_int a :: rat) < 2 ^ la"
  proof -
    have "(of_nat (2 ^ (la - 1)) :: rat) \<le> of_nat (nat a)" using la by (simp only: of_nat_le_iff)
    then show "(2::rat) ^ (la - 1) \<le> of_int a" using a by simp
    have "(of_nat (nat a) :: rat) < of_nat (2 ^ la)" using la by (simp only: of_nat_less_iff)
    then show "(of_int a :: rat) < 2 ^ la" using a by simp
  qed
  have rb: "(2::rat) ^ (lb - 1) \<le> of_int b" "(of_int b :: rat) < 2 ^ lb"
  proof -
    have "(of_nat (2 ^ (lb - 1)) :: rat) \<le> of_nat (nat b)" using lb by (simp only: of_nat_le_iff)
    then show "(2::rat) ^ (lb - 1) \<le> of_int b" using b by simp
    have "(of_nat (nat b) :: rat) < of_nat (2 ^ lb)" using lb by (simp only: of_nat_less_iff)
    then show "(of_int b :: rat) < 2 ^ lb" using b by simp
  qed
  define d where "d = int la - int lb"
  have up: "\<bar>x\<bar> < pow2 (d + 1)"
  proof -
    have "of_int a / of_int b < (2::rat) ^ la / 2 ^ (lb - 1)"
      using ra rb a b by (intro frac_less) auto
    also have "\<dots> = pow2 (int la - int (lb - 1))" by (simp only: pow2_diff_nat)
    also have "int la - int (lb - 1) = d + 1" using lb1 by (simp add: d_def)
    finally show ?thesis by (simp add: x)
  qed
  have lo: "pow2 (d - 1) \<le> \<bar>x\<bar>"
  proof -
    have "(2::rat) ^ (la - 1) / 2 ^ lb \<le> of_int a / of_int b"
      using ra rb a b by (intro frac_le) auto
    moreover have "(2::rat) ^ (la - 1) / 2 ^ lb = pow2 (int (la - 1) - int lb)"
      by (simp only: pow2_diff_nat)
    moreover have "int (la - 1) - int lb = d - 1" using la1 by (simp add: d_def)
    ultimately show ?thesis by (simp add: x)
  qed
  have il: "ilog2 x = (if pow2 d \<le> \<bar>x\<bar> then d else d - 1)"
    by (simp add: ilog2_def q la_def lb_def d_def Let_def)
  show ?thesis
  proof (cases "pow2 d \<le> \<bar>x\<bar>")
    case True
    with il up show ?thesis by simp
  next
    case False
    with il lo show ?thesis by simp
  qed
qed

lemma ilog2_unique:
  assumes "pow2 e \<le> \<bar>x\<bar>" "\<bar>x\<bar> < pow2 (e + 1)"
  shows "ilog2 x = e"
proof -
  have "x \<noteq> 0" using assms pow2_pos [of e] by auto
  from ilog2_bounds [OF this] have b: "pow2 (ilog2 x) \<le> \<bar>x\<bar>" "\<bar>x\<bar> < pow2 (ilog2 x + 1)" by auto
  have "\<not> ilog2 x < e"
  proof
    assume "ilog2 x < e"
    then have "pow2 (ilog2 x + 1) \<le> pow2 e" by (intro pow2_mono) simp
    with b assms show False by simp
  qed
  moreover have "\<not> e < ilog2 x"
  proof
    assume "e < ilog2 x"
    then have "pow2 (e + 1) \<le> pow2 (ilog2 x)" by (intro pow2_mono) simp
    with b assms show False by simp
  qed
  ultimately show ?thesis by simp
qed


lemma round_even_of_int [simp]: "round_even (of_int n) = n"
  by (simp add: round_even_def)

lemma round_even_floor: "\<lfloor>z\<rfloor> \<le> round_even z \<and> round_even z \<le> \<lfloor>z\<rfloor> + 1"
  by (simp add: round_even_def Let_def)

lemma round_even_mono:
  assumes "z \<le> z'"
  shows "round_even z \<le> round_even z'"
proof (cases "\<lfloor>z\<rfloor> = \<lfloor>z'\<rfloor>")
  case True
  have "z - of_int \<lfloor>z\<rfloor> \<le> z' - of_int \<lfloor>z'\<rfloor>" using assms True by simp
  then show ?thesis using True
    by (auto simp add: round_even_def Let_def)
next
  case False
  have "\<lfloor>z\<rfloor> \<le> \<lfloor>z'\<rfloor>" using assms by (rule floor_mono)
  with False have "\<lfloor>z\<rfloor> + 1 \<le> \<lfloor>z'\<rfloor>" by simp
  with round_even_floor [of z] round_even_floor [of z'] show ?thesis by linarith
qed

lemma round_even_le_int: "z \<le> of_int m \<Longrightarrow> round_even z \<le> m"
  using round_even_mono [of z "of_int m"] by simp

lemma round_even_ge_int: "of_int m \<le> z \<Longrightarrow> m \<le> round_even z"
  using round_even_mono [of "of_int m" z] by simp

lemma pow2_split: "pow2 (a + int n) = pow2 a * 2 ^ n"
  by (simp add: pow2_add pow2_nat)

lemma pow2_up53: "pow2 (e + 1) = pow2 (e - 52) * 2 ^ 53"
proof -
  have "e + 1 = (e - 52) + int 53" by simp
  then have "pow2 (e + 1) = pow2 ((e - 52) + int 53)" by (rule arg_cong)
  also have "\<dots> = pow2 (e - 52) * 2 ^ 53" by (simp only: pow2_split)
  finally show ?thesis .
qed

lemma pow2_up52: "pow2 e = pow2 (e - 52) * 2 ^ 52"
proof -
  have "e = (e - 52) + int 52" by simp
  then have "pow2 e = pow2 ((e - 52) + int 52)" by (rule arg_cong)
  also have "\<dots> = pow2 (e - 52) * 2 ^ 52" by (simp only: pow2_split)
  finally show ?thesis .
qed

lemma f64_round_alt:
  "x \<noteq> 0 \<Longrightarrow> f64_round x =
     (let r = of_int (round_even (x / pow2 (fexp x - 52))) * pow2 (fexp x - 52)
      in if pow2 1024 \<le> \<bar>r\<bar> then (if 0 < x then PInf else NInf) else Fin r)"
  by (simp add: f64_round_def Let_def)

lemma pos_scaled_bounds:
  assumes "0 < x"
  shows "x / pow2 (fexp x - 52) < 2 ^ 53"
    and "- 1022 \<le> ilog2 x \<Longrightarrow> 2 ^ 52 \<le> x / pow2 (fexp x - 52)"
proof -
  have x0: "x \<noteq> 0" using assms by simp
  have b: "pow2 (ilog2 x) \<le> x" "x < pow2 (ilog2 x + 1)"
    using ilog2_bounds [OF x0] assms by auto
  have "pow2 (ilog2 x + 1) \<le> pow2 (fexp x + 1)"
    by (intro pow2_mono) (simp add: fexp_def)
  also have "pow2 (fexp x + 1) = pow2 (fexp x - 52) * 2 ^ 53"
    by (rule pow2_up53)
  finally have "x < pow2 (fexp x - 52) * 2 ^ 53" using b by simp
  then show "x / pow2 (fexp x - 52) < 2 ^ 53"
    using pow2_pos [of "fexp x - 52"] by (simp add: divide_less_eq mult.commute)
  assume "- 1022 \<le> ilog2 x"
  then have e: "fexp x = ilog2 x" by (simp add: fexp_def)
  have "pow2 (fexp x) = pow2 (fexp x - 52) * 2 ^ 52"
    by (rule pow2_up52)
  with b e have "pow2 (fexp x - 52) * 2 ^ 52 \<le> x" by simp
  then show "2 ^ 52 \<le> x / pow2 (fexp x - 52)"
    using pow2_pos [of "fexp x - 52"] by (simp add: le_divide_eq mult.commute)
qed

lemma f64_round_pos:
  assumes "0 < x"
  obtains (fin) r where "f64_round x = Fin r" "0 \<le> r" "r \<le> pow2 (fexp x + 1)"
      "r = of_int (round_even (x / pow2 (fexp x - 52))) * pow2 (fexp x - 52)"
      "- 1022 \<le> ilog2 x \<longrightarrow> pow2 (fexp x) \<le> r"
    | (inf) "f64_round x = PInf" "1023 \<le> fexp x"
proof -
  define q where "q = pow2 (fexp x - 52)"
  define m where "m = round_even (x / q)"
  define r where "r = of_int m * q"
  have q: "0 < q" by (simp add: q_def pow2_pos)
  have m53: "m \<le> 2 ^ 53"
    using pos_scaled_bounds(1) [OF assms] round_even_le_int [of "x / q" "2 ^ 53"]
    by (simp add: m_def q_def)
  have m0: "0 \<le> m"
    using round_even_ge_int [of 0 "x / q"] assms q by (simp add: m_def)
  have r0: "0 \<le> r" using m0 q by (simp add: r_def)
  have "r \<le> 2 ^ 53 * q"
    unfolding r_def using m53 q
    by (intro mult_right_mono) (auto simp: of_int_le_iff [of m "2 ^ 53", where 'a = rat, simplified])
  also have "2 ^ 53 * q = pow2 (fexp x + 1)"
    using pow2_up53 [of "fexp x"] by (simp only: q_def mult.commute)
  finally have rup: "r \<le> pow2 (fexp x + 1)" .
  have rlo: "- 1022 \<le> ilog2 x \<longrightarrow> pow2 (fexp x) \<le> r"
  proof
    assume "- 1022 \<le> ilog2 x"
    from pos_scaled_bounds(2) [OF assms this]
    have "2 ^ 52 \<le> m"
      using round_even_ge_int [of "2 ^ 52" "x / q"] by (simp add: m_def q_def)
    then have "2 ^ 52 * q \<le> r"
      unfolding r_def using q
      by (intro mult_right_mono) (auto simp: of_int_le_iff [of "2 ^ 52" m, where 'a = rat, simplified])
    moreover have "2 ^ 52 * q = pow2 (fexp x)"
      using pow2_up52 [of "fexp x"] by (simp only: q_def mult.commute)
    ultimately show "pow2 (fexp x) \<le> r" by simp
  qed
  have fr: "f64_round x = (if pow2 1024 \<le> \<bar>r\<bar> then PInf else Fin r)"
    using assms by (simp add: f64_round_alt Let_def r_def m_def q_def)
  show ?thesis
  proof (cases "pow2 1024 \<le> \<bar>r\<bar>")
    case True
    then have "pow2 1024 \<le> pow2 (fexp x + 1)" using rup r0 by simp
    then have "\<not> fexp x + 1 < 1024" using pow2_strict_mono [of "fexp x + 1" 1024] by auto
    then show ?thesis using inf fr True by simp
  next
    case False
    then show ?thesis using fin [of r] fr r0 rup rlo by (simp add: r_def m_def q_def)
  qed
qed

lemma ilog2_mono_pos:
  assumes "0 < x" "x \<le> y"
  shows "ilog2 x \<le> ilog2 y"
proof (rule ccontr)
  assume "\<not> ilog2 x \<le> ilog2 y"
  then have "ilog2 y + 1 \<le> ilog2 x" by simp
  then have "pow2 (ilog2 y + 1) \<le> pow2 (ilog2 x)" by (rule pow2_mono)
  moreover have "pow2 (ilog2 x) \<le> x" using ilog2_bounds [of x] assms by auto
  moreover have "y < pow2 (ilog2 y + 1)" using ilog2_bounds [of y] assms by auto
  ultimately show False using assms by simp
qed

lemma f64_round_mono_pos:
  assumes "0 < x" "x \<le> y" "f64_round x = Fin a" "f64_round y = Fin b"
  shows "a \<le> b"
proof -
  have y: "0 < y" using assms by simp
  have ee: "fexp x \<le> fexp y"
    using ilog2_mono_pos [OF assms(1,2)] by (simp add: fexp_def)
  from assms(1) show ?thesis
  proof (cases rule: f64_round_pos)
    case (fin r)
    note fx = this
    from y show ?thesis
    proof (cases rule: f64_round_pos)
      case (fin r')
      note fy = this
      show ?thesis
      proof (cases "fexp x = fexp y")
        case True
        have "x / pow2 (fexp y - 52) \<le> y / pow2 (fexp y - 52)"
          using assms(2) pow2_pos [of "fexp y - 52"] by (simp add: divide_right_mono)
        then have "round_even (x / pow2 (fexp y - 52)) \<le> round_even (y / pow2 (fexp y - 52))"
          by (rule round_even_mono)
        then have "r \<le> r'"
          unfolding fx(4) fy(4) True using pow2_pos [of "fexp y - 52"]
          by (intro mult_right_mono) auto
        then show ?thesis using fx fy assms by simp
      next
        case False
        with ee have lt: "fexp x + 1 \<le> fexp y" by simp
        then have "- 1022 \<le> ilog2 y" by (auto simp: fexp_def split: if_splits)
        with fy have "pow2 (fexp y) \<le> r'" by simp
        moreover have "pow2 (fexp x + 1) \<le> pow2 (fexp y)" using lt by (rule pow2_mono)
        ultimately have "r \<le> r'" using fx(3) by simp
        then show ?thesis using fx fy assms by simp
      qed
    next
      case inf
      with assms show ?thesis by simp
    qed
  next
    case inf
    with assms show ?thesis by simp
  qed
qed

lemma f64_round_finite_pos:
  assumes "0 < x" "x < pow2 1023"
  obtains r where "f64_round x = Fin r" "0 \<le> r"
proof -
  have "ilog2 x < 1023"
  proof (rule ccontr)
    assume "\<not> ilog2 x < 1023"
    then have "pow2 1023 \<le> pow2 (ilog2 x)" by (intro pow2_mono) simp
    moreover have "pow2 (ilog2 x) \<le> x" using ilog2_bounds [of x] assms by auto
    ultimately show False using assms by simp
  qed
  then have "fexp x < 1023" by (simp add: fexp_def)
  with assms(1) that show ?thesis
    by (cases rule: f64_round_pos) auto
qed


lemma pow2_0 [simp]: "pow2 0 = 1"
  by (simp add: pow2_def)

lemma one_le_pow2: "0 \<le> e \<Longrightarrow> 1 \<le> pow2 e"
  using pow2_mono [of 0 e] by simp

lemma f64_round_0 [simp]: "f64_round 0 = Fin 0"
  by (simp add: f64_round_def)

lemma f64_to_int_0 [simp]: "f64_to_int (Fin 0) = 0"
  by (simp add: minInt64_def maxInt64_def)

lemma f64_round_exact:
  assumes "0 < x" "x / pow2 (fexp x - 52) = of_int j" "x < pow2 1023"
  shows "f64_round x = Fin x"
proof -
  from assms(1,3) obtain r where r: "f64_round x = Fin r"
    by (rule f64_round_finite_pos)
  from assms(1) have "r = of_int (round_even (x / pow2 (fexp x - 52))) * pow2 (fexp x - 52)"
    by (cases rule: f64_round_pos) (use r in auto)
  also have "\<dots> = x / pow2 (fexp x - 52) * pow2 (fexp x - 52)"
    by (simp add: assms(2))
  also have "\<dots> = x" using pow2_pos [of "fexp x - 52"] by simp
  finally show ?thesis using r by simp
qed

lemma f64_of_int_exact:
  assumes "0 \<le> n" "n \<le> 2 ^ 53"
  shows "f64_of_int n = Fin (of_int n)"
proof (cases "n = 0")
  case True
  then show ?thesis by (simp add: f64_of_int_def f64_round_def)
next
  case False
  define x :: rat where "x = of_int n"
  have x: "0 < x" "1 \<le> x" "x \<le> 2 ^ 53" using assms False by (simp_all add: x_def)
  have e0: "0 \<le> ilog2 x"
  proof (rule ccontr)
    assume "\<not> 0 \<le> ilog2 x"
    then have "pow2 (ilog2 x + 1) \<le> pow2 0" by (intro pow2_mono) simp
    moreover have "x < pow2 (ilog2 x + 1)" using ilog2_bounds [of x] x by auto
    ultimately show False using x by simp
  qed
  have e53: "ilog2 x \<le> 53"
  proof (rule ccontr)
    assume "\<not> ilog2 x \<le> 53"
    then have "pow2 (int 54) \<le> pow2 (ilog2 x)" by (intro pow2_mono) simp
    moreover have "pow2 (ilog2 x) \<le> x" using ilog2_bounds [of x] x by auto
    ultimately show False using x by (simp only: pow2_nat) simp
  qed
  have fe: "fexp x = ilog2 x" using e0 by (simp add: fexp_def)
  have "\<exists>j. x / pow2 (fexp x - 52) = of_int j"
  proof (cases "ilog2 x \<le> 52")
    case True
    then have "pow2 (fexp x - 52) = 1 / 2 ^ nat (52 - ilog2 x)"
      by (auto simp add: pow2_def fe)
    then have "x / pow2 (fexp x - 52) = of_int (n * 2 ^ nat (52 - ilog2 x))"
      by (simp add: x_def)
    then show ?thesis by blast
  next
    case False
    with e53 have e: "ilog2 x = 53" by simp
    have "pow2 (int 53) \<le> x" using ilog2_bounds [of x] x e by auto
    with x have "x = 2 ^ 53" by (simp only: pow2_nat)
    moreover have "pow2 (fexp x - 52) = 2" by (simp add: fe e pow2_def)
    ultimately have "x / pow2 (fexp x - 52) = of_int (2 ^ 52)" by simp
    then show ?thesis by blast
  qed
  then obtain j where j: "x / pow2 (fexp x - 52) = of_int j" ..
  have "x < pow2 (int 1023)"
  proof -
    have "x < pow2 (int 54)" using x by (simp only: pow2_nat) simp
    also have "pow2 (int 54) \<le> pow2 (int 1023)" by (intro pow2_mono) simp
    finally show ?thesis .
  qed
  then have "x < pow2 1023" by simp
  from f64_round_exact [OF x(1) j this] show ?thesis
    by (simp add: f64_of_int_def x_def)
qed

lemma lt_pow2_1023: "x \<le> 100 \<Longrightarrow> x < pow2 1023"
proof -
  assume "x \<le> 100"
  also have "(100::rat) < pow2 (int 7)" by (simp only: pow2_nat) simp
  also have "pow2 (int 7) \<le> pow2 (int 1023)" by (intro pow2_mono) simp
  finally show ?thesis by simp
qed

lemma round_even_frac:
  assumes "0 \<le> d" "d < 1 / 2"
  shows "round_even (of_int n + d) = n"
proof -
  have "\<lfloor>of_int n + d\<rfloor> = n" using assms by (intro floor_unique) auto
  then show ?thesis using assms by (simp add: round_even_def Let_def)
qed

lemma fexp_eqI: "pow2 e \<le> \<bar>x\<bar> \<Longrightarrow> \<bar>x\<bar> < pow2 (e + 1) \<Longrightarrow> - 1022 \<le> e \<Longrightarrow> fexp x = e"
  by (simp add: fexp_def ilog2_unique)

lemma below_one_value: "f64_round (1 - 1 / 2 ^ 53) = Fin (1 - 1 / 2 ^ 53)"
proof -
  define x :: rat where "x = 1 - 1 / 2 ^ 53"
  have fe: "fexp x = - 1"
    by (rule fexp_eqI) (simp_all add: pow2_def x_def)
  have "x / pow2 (fexp x - 52) = of_int (2 ^ 53 - 1)"
    unfolding fe by (simp add: pow2_def x_def)
  moreover have "0 < x" by (simp add: x_def)
  moreover have "x < pow2 1023" by (rule lt_pow2_1023) (simp add: x_def)
  ultimately have "f64_round x = Fin x" by (intro f64_round_exact [where j = "2 ^ 53 - 1"])
  then show ?thesis by (simp only: x_def)
qed

lemma below_hundred_value: "f64_round ((1 - 1 / 2 ^ 53) * 100) = Fin (100 - 1 / 2 ^ 46)"
proof -
  define y :: rat where "y = (1 - 1 / 2 ^ 53) * 100"
  have fe: "fexp y = 6"
    by (rule fexp_eqI) (simp_all add: pow2_def y_def)
  have y0: "0 < y" by (simp add: y_def)
  have "y < pow2 1023" by (rule lt_pow2_1023) (simp add: y_def)
  with y0 obtain r where r: "f64_round y = Fin r" by (rule f64_round_finite_pos)
  from y0 have "r = of_int (round_even (y / pow2 (fexp y - 52))) * pow2 (fexp y - 52)"
    by (cases rule: f64_round_pos) (use r in auto)
  also have "y / pow2 (fexp y - 52) = of_int 7036874417766399 + 7 / 32"
    unfolding fe by (simp add: pow2_def y_def)
  also have "round_even (of_int 7036874417766399 + 7 / 32) = 7036874417766399"
    by (rule round_even_frac) simp_all
  also have "of_int 7036874417766399 * pow2 (fexp y - 52) = 100 - 1 / 2 ^ 46"
    unfolding fe by (simp add: pow2_def)
  finally show ?thesis using r by (simp only: y_def)
qed

lemma f64_round_1: "f64_round 1 = Fin 1"
  by code_simp

lemma f64_round_100: "f64_round 100 = Fin 100"
  by code_simp

lemma percent_full:
  assumes "0 < m" "m \<le> 2 ^ 53"
  shows "f64_to_int (f64_mul (f64_div (f64_of_int m) (f64_of_int m)) (Fin 100)) = 100"
proof -
  have "f64_of_int m = Fin (of_int m)" using assms by (intro f64_of_int_exact) auto
  moreover have "(of_int m :: rat) \<noteq> 0" using assms by simp
  ultimately show ?thesis
    by (simp add: f64_round_1 f64_round_100 minInt64_def maxInt64_def)
qed

lemma percent_below:
  assumes "0 \<le> k" "k < m" "m \<le> 2 ^ 53"
  shows "f64_to_int (f64_mul (f64_div (f64_of_int k) (f64_of_int m)) (Fin 100)) < 100"
    and "0 \<le> f64_to_int (f64_mul (f64_div (f64_of_int k) (f64_of_int m)) (Fin 100))"
proof -
  have fk: "f64_of_int k = Fin (of_int k)" using assms by (intro f64_of_int_exact) auto
  have fm: "f64_of_int m = Fin (of_int m)" using assms by (intro f64_of_int_exact) auto
  have m0: "(of_int m :: rat) \<noteq> 0" "0 < (of_int m :: rat)" using assms by simp_all
  define x :: rat where "x = of_int k / of_int m"
  have d: "f64_div (f64_of_int k) (f64_of_int m) = f64_round x"
    using m0 by (simp add: fk fm x_def)
  have goal: "f64_to_int (f64_mul (f64_round x) (Fin 100)) < 100
      \<and> 0 \<le> f64_to_int (f64_mul (f64_round x) (Fin 100))"
  proof (cases "k = 0")
    case True
    then show ?thesis by (simp add: x_def minInt64_def maxInt64_def)
  next
    case False
    have x0: "0 < x" using False assms m0 by (simp add: x_def)
    have "k \<le> m - 1" using assms by simp
    then have "(of_int k :: rat) \<le> of_int (m - 1)" by (simp only: of_int_le_iff)
    then have km: "of_int k \<le> (of_int m :: rat) - 1" by simp
    have "x \<le> (of_int m - 1) / of_int m"
      unfolding x_def using km m0 by (intro divide_right_mono) auto
    also have "\<dots> = 1 - 1 / of_int m" using m0 by (simp add: diff_divide_distrib)
    finally have x1: "x \<le> 1 - 1 / of_int m" .
    have "(of_int m :: rat) \<le> of_int (2 ^ 53)" using assms by (simp only: of_int_le_iff)
    then have "(of_int m :: rat) \<le> 2 ^ 53" by simp
    then have "1 / (2 ^ 53 :: rat) \<le> 1 / of_int m"
      using m0 by (intro divide_left_mono) auto
    with x1 have xu: "x \<le> 1 - 1 / 2 ^ 53" by linarith
    then have "x \<le> 100" by simp
    from f64_round_finite_pos [OF x0 lt_pow2_1023 [OF this]]
    obtain p where p: "f64_round x = Fin p" "0 \<le> p" by blast
    have pu: "p \<le> 1 - 1 / 2 ^ 53"
      using f64_round_mono_pos [OF x0 xu p(1) below_one_value] .
    show ?thesis
    proof (cases "p = 0")
      case True
      then show ?thesis by (simp add: p(1) minInt64_def maxInt64_def)
    next
      case False
      with p have y0: "0 < p * 100" by simp
      have yu: "p * 100 \<le> (1 - 1 / 2 ^ 53) * 100" using pu by simp
      then have "p * 100 \<le> 100" by simp
      from f64_round_finite_pos [OF y0 lt_pow2_1023 [OF this]]
      obtain z where z: "f64_round (p * 100) = Fin z" "0 \<le> z" by blast
      have zu: "z \<le> 100 - 1 / 2 ^ 46"
        using f64_round_mono_pos [OF y0 yu z(1) below_hundred_value] .
      then have "z < 100" by simp
      then have "\<lfloor>z\<rfloor> < 100" by (simp add: floor_less_iff)
      moreover have "0 \<le> \<lfloor>z\<rfloor>" using z by simp
      ultimately show ?thesis
        using z by (simp add: p(1) minInt64_def maxInt64_def)
    qed
  qed
  show "f64_to_int (f64_mul (f64_div (f64_of_int k) (f64_of_int m)) (Fin 100)) < 100"
    using goal d by simp
  show "0 \<le> f64_to_int (f64_mul (f64_div (f64_of_int k) (f64_of_int m)) (Fin 100))"
    using goal d by simp
qed



section \<open>What a call leaves alone\<close>


lemma drawn_upd [simp]:
  "drawn (s\<lparr>isAltSaucerHead := a\<rparr>) = drawn s"
  "drawn (s\<lparr>currentSaucerSize := n\<rparr>) = drawn s"
  "drawn (s\<lparr>rendered := r\<rparr>) = drawn s"
  by (simp_all add: drawn_def)

lemma kept_upd [simp]:
  "kept (s\<lparr>isAltSaucerHead := a\<rparr>) = kept s"
  "kept (s\<lparr>currentSaucerSize := n\<rparr>) = kept s"
  "kept (s\<lparr>rendered := r\<rparr>) = kept s"
  "kept (s\<lparr>finished := b\<rparr>) = kept s"
  "kept (s\<lparr>maxLineWidth := w\<rparr>) = kept s"
  "kept (s\<lparr>lastShown := t\<rparr>) = kept s"
  by (simp_all add: kept_def)

lemma kept_drawn: "drawn s' = drawn s \<Longrightarrow> kept s' = kept s"
proof -
  assume "drawn s' = drawn s"
  then have "kept (drawn s') = kept (drawn s)" by simp
  then show ?thesis by (simp add: drawn_def)
qed

lemma drawn_fields:
  assumes "drawn s' = drawn s"
  shows "currentNum s' = currentNum s" "currentPercent s' = currentPercent s"
    "lastPercent s' = lastPercent s" "startTime s' = startTime s" "lastShown s' = lastShown s"
    "counterTime s' = counterTime s" "counterNumSinceLast s' = counterNumSinceLast s"
    "counterLastTenRates s' = counterLastTenRates s" "maxLineWidth s' = maxLineWidth s"
    "currentBytes s' = currentBytes s" "finished s' = finished s" "exit s' = exit s"
  using assms [THEN arg_cong, of currentNum] assms [THEN arg_cong, of currentPercent]
    assms [THEN arg_cong, of lastPercent] assms [THEN arg_cong, of startTime]
    assms [THEN arg_cong, of lastShown] assms [THEN arg_cong, of counterTime]
    assms [THEN arg_cong, of counterNumSinceLast] assms [THEN arg_cong, of counterLastTenRates]
    assms [THEN arg_cong, of maxLineWidth] assms [THEN arg_cong, of currentBytes]
    assms [THEN arg_cong, of finished] assms [THEN arg_cong, of exit]
  by (simp_all add: drawn_def)

lemma kept_fields:
  assumes "kept s' = kept s"
  shows "currentNum s' = currentNum s" "currentPercent s' = currentPercent s"
    "lastPercent s' = lastPercent s" "startTime s' = startTime s"
    "counterTime s' = counterTime s" "counterNumSinceLast s' = counterNumSinceLast s"
    "counterLastTenRates s' = counterLastTenRates s"
    "currentBytes s' = currentBytes s" "exit s' = exit s"
  using assms [THEN arg_cong, of currentNum] assms [THEN arg_cong, of currentPercent]
    assms [THEN arg_cong, of lastPercent] assms [THEN arg_cong, of startTime]
    assms [THEN arg_cong, of counterTime]
    assms [THEN arg_cong, of counterNumSinceLast] assms [THEN arg_cong, of counterLastTenRates]
    assms [THEN arg_cong, of currentBytes] assms [THEN arg_cong, of exit]
  by (simp_all add: kept_def)

lemma outside_upd [simp]:
  "outside (e\<lparr>reads := n\<rparr>) = outside e"
  "outside (e\<lparr>written := w\<rparr>) = outside e"
  "outside (e\<lparr>called := k\<rparr>) = outside e"
  by (simp_all add: outside_def)

lemma outside_fields:
  assumes "outside e' = outside e"
  shows "clock e' = clock e" "stdout_size e' = stdout_size e" "stderr_size e' = stderr_size e"
    "Color e' = Color e" "StringWidth e' = StringWidth e" "spinners e' = spinners e"
    "os_Stdout e' = os_Stdout e" "math_Log e' = math_Log e"
  using assms [THEN arg_cong, of clock] assms [THEN arg_cong, of stdout_size]
    assms [THEN arg_cong, of stderr_size] assms [THEN arg_cong, of Color]
    assms [THEN arg_cong, of StringWidth] assms [THEN arg_cong, of spinners]
    assms [THEN arg_cong, of os_Stdout] assms [THEN arg_cong, of math_Log]
  by (simp_all add: outside_def)

lemma Now_env:
  "Now e = (n, e') \<Longrightarrow> outside e' = outside e \<and> written e' = written e \<and> called e' = called e"
  by (auto simp: Now_def)

lemma Since_env:
  "Since t e = (n, e') \<Longrightarrow> outside e' = outside e \<and> written e' = written e \<and> called e' = called e"
  by (auto simp: Since_def Now_def split: prod.splits)

lemma writeString_env:
  "writeString c str e = (r, e') \<Longrightarrow> outside e' = outside e \<and> called e' = called e \<and> reads e' = reads e"
  by (auto simp: writeString_def split: if_splits)

lemma averageRate_env:
  "averageRate s e = (avg, e') \<Longrightarrow> outside e' = outside e \<and> written e' = written e \<and> called e' = called e"
  by (auto simp: averageRate_def Let_def dest: Since_env split: if_splits prod.splits)

lemma leftBrac_text_env:
  "leftBrac_text c s e = (l, e') \<Longrightarrow> outside e' = outside e \<and> written e' = written e \<and> called e' = called e"
  by (auto simp: leftBrac_text_def Let_def dest: Since_env split: if_splits prod.splits)

lemma spinner_frame_env:
  "spinner_frame c s e = (sp, e') \<Longrightarrow> outside e' = outside e \<and> written e' = written e \<and> called e' = called e"
  by (auto simp: spinner_frame_def Let_def dest: Since_env split: if_splits prod.splits)

lemma emit_frame:
  "emit c str s e = (wr, s', e') \<Longrightarrow> drawn s' = drawn s \<and> outside e' = outside e \<and> called e' = called e"
  by (auto simp: emit_def Let_def dest: writeString_env split: prod.splits)

lemma renderProgressBar_frame:
  assumes "renderProgressBar c s e = (wr, s', e')"
  shows "drawn s' = drawn s \<and> outside e' = outside e \<and> called e' = called e"
  using assms unfolding renderProgressBar_def
  by (auto simp: Let_def dest!: emit_frame averageRate_env leftBrac_text_env spinner_frame_env
           split: option.splits prod.splits if_splits)

lemma clearProgressBar_env:
  "clearProgressBar c s e = (r, e') \<Longrightarrow> outside e' = outside e \<and> called e' = called e"
  by (auto simp: clearProgressBar_def Let_def dest: writeString_env split: if_splits prod.splits)

lemma finish_frame:
  assumes "finish c s e = (r, s', e')"
  shows "kept s' = kept s \<and> outside e' = outside e \<and> (r \<noteq> Panicked \<longrightarrow> finished s')
    \<and> (r \<noteq> Panicked \<longrightarrow> called e' = called e @ (case onCompletion c of None \<Rightarrow> [] | Some f \<Rightarrow> [f]))
    \<and> (r = Panicked \<longrightarrow> called e' = called e)"
  using assms unfolding finish_def
  by (auto simp: Let_def dest!: renderProgressBar_frame dest: kept_drawn drawn_fields
           split: option.splits prod.splits if_splits)


lemma render_frame:
  assumes "render c s e = (r, s', e')"
  shows "kept s' = kept s \<and> outside e' = outside e"
  using assms unfolding render_def
  by (auto simp: Let_def
           dest!: renderProgressBar_frame clearProgressBar_env Since_env Now_env finish_frame
           dest: kept_drawn
           split: prod.splits if_splits)

lemma render_unfinished:
  assumes "render c s e = (r, s', e')" "currentNum s < max_c c" "\<not> finished s"
  shows "\<not> finished s' \<and> called e' = called e"
  using assms unfolding render_def
  by (auto simp: Let_def
           dest!: renderProgressBar_frame clearProgressBar_env Since_env Now_env
           dest: drawn_fields(11)
           split: prod.splits if_splits)

lemma render_finishing:
  assumes "render c s e = (Returned None, s', e')" "max_c c \<le> currentNum s" "\<not> finished s"
  shows "finished s' \<and> called e' = called e @ (case onCompletion c of None \<Rightarrow> [] | Some f \<Rightarrow> [f])"
proof -
  obtain d e1 where d: "Since (lastShown s) e = (d, e1)" by (cases "Since (lastShown s) e")
  obtain r1 e2 where c1: "(if \<not> useANSICodes c then clearProgressBar c s e1 else (Returned None, e1)) = (r1, e2)"
    by (cases "if \<not> useANSICodes c then clearProgressBar c s e1 else (Returned None, e1)")
  obtain r2 s2 e3 where f: "finish c s e2 = (r2, s2, e3)" by (cases "finish c s e2")
  have ce1: "called e1 = called e" using d by (auto dest: Since_env)
  have ce2: "called e2 = called e1" using c1 by (auto dest: clearProgressBar_env split: if_splits)
  have r1: "r1 = Returned None"
    using assms d c1 unfolding render_def by (auto simp: Let_def split: if_splits)
  have r2: "r2 \<noteq> Panicked"
    using assms d c1 f r1 unfolding render_def by (auto simp: Let_def split: if_splits)
  from finish_frame [OF f] r2
  have fin: "finished s2" "called e3 = called e2 @ (case onCompletion c of None \<Rightarrow> [] | Some f \<Rightarrow> [f])"
    by auto
  have "s' = s2 \<and> called e' = called e3"
    using assms d c1 f r1 r2 fin unfolding render_def
    by (auto simp: Let_def dest!: clearProgressBar_env split: if_splits prod.splits)
  with fin ce1 ce2 show ?thesis by simp
qed

lemma render_finished:
  assumes "render c s e = (r, s', e')" "finished s"
  shows "finished s' \<and> called e' = called e \<and> rendered s' = rendered s"
  using assms unfolding render_def
  by (auto simp: Let_def
           dest!: clearProgressBar_env Since_env
           split: prod.splits if_splits)


lemma render_outcome:
  assumes "render c s e = (r, s', e')"
  shows "r = Returned None \<or> r = Returned (Some ErrWrite) \<or> r = Panicked"
proof -
  have w: "\<And>str e0 r0 e0'. writeString c str e0 = (r0, e0') \<Longrightarrow> r0 = None \<or> r0 = Some ErrWrite"
    by (auto simp: writeString_def split: if_splits)
  have cl: "\<And>s0 e0 r0 e0'. clearProgressBar c s0 e0 = (r0, e0')
      \<Longrightarrow> r0 = Returned None \<or> r0 = Returned (Some ErrWrite) \<or> r0 = Panicked"
    by (auto simp: clearProgressBar_def Let_def dest: w split: if_splits prod.splits)
  have em: "\<And>c0 str s0 e0 w0 r0 s0' e0'. emit c0 str s0 e0 = ((w0, r0), s0', e0')
      \<Longrightarrow> r0 = Returned None \<or> r0 = Returned (Some ErrWrite)"
    by (auto simp: emit_def writeString_def Let_def split: if_splits prod.splits)
  have rp: "\<And>s0 e0 w0 r0 s0' e0'. renderProgressBar c s0 e0 = ((w0, r0), s0', e0')
      \<Longrightarrow> r0 = Returned None \<or> r0 = Returned (Some ErrWrite) \<or> r0 = Panicked"
    unfolding renderProgressBar_def
    by (auto simp: Let_def dest!: em split: option.splits prod.splits if_splits)
  show ?thesis
    using assms unfolding render_def finish_def
    by (auto simp: Let_def dest!: cl rp split: prod.splits if_splits option.splits)
qed

lemma count_step_fields:
  "currentNum (count_step n c s) =
     (if currentNum s < max_c c
      then (if ignoreLength c then rem (i64 (currentNum s + n)) (max_c c) else i64 (currentNum s + n))
      else currentNum s)"
  "currentBytes (count_step n c s) = f64_add (currentBytes s) (f64_of_int n)"
  "kept (count_step n c s\<lparr>currentNum := a, currentBytes := b\<rparr>) = kept (s\<lparr>currentNum := a, currentBytes := b\<rparr>)"
  "finished (count_step n c s) = finished s" "exit (count_step n c s) = exit s"
  "lastPercent (count_step n c s) = lastPercent s"
  "counterTime (count_step n c s) = counterTime s"
  "counterNumSinceLast (count_step n c s) = counterNumSinceLast s"
  "counterLastTenRates (count_step n c s) = counterLastTenRates s"
  "rendered (count_step n c s) = rendered s" "maxLineWidth (count_step n c s) = maxLineWidth s"
  "lastShown (count_step n c s) = lastShown s" "startTime (count_step n c s) = startTime s"
  by (simp_all add: count_step_def Let_def)

lemma rate_step_fields:
  assumes "rate_step n s e = (s', e')"
  shows "currentNum s' = currentNum s" "currentBytes s' = currentBytes s"
    "finished s' = finished s" "exit s' = exit s" "lastPercent s' = lastPercent s"
    "rendered s' = rendered s" "maxLineWidth s' = maxLineWidth s"
    "lastShown s' = lastShown s" "startTime s' = startTime s"
    "outside e' = outside e" "written e' = written e" "called e' = called e"
  using assms unfolding rate_step_def
  by (auto simp: Let_def Since_def Now_def split: prod.splits if_splits)

lemma percent_step_fields:
  assumes "percent_step c s = (u, s')"
  shows "currentNum s' = currentNum s" "currentBytes s' = currentBytes s"
    "finished s' = finished s" "exit s' = exit s"
    "rendered s' = rendered s" "maxLineWidth s' = maxLineWidth s"
    "lastShown s' = lastShown s" "startTime s' = startTime s"
    "counterTime s' = counterTime s" "counterNumSinceLast s' = counterNumSinceLast s"
    "counterLastTenRates s' = counterLastTenRates s"
    "currentPercent s' = f64_to_int (f64_mul (f64_div (f64_of_int (currentNum s)) (f64_of_int (max_c c))) (Fin 100))"
    "lastPercent s' = currentPercent s'"
    "u = (currentPercent s' \<noteq> lastPercent s \<and> 0 < currentPercent s')"
  using assms unfolding percent_step_def
  by (auto simp: Let_def)

lemma bookkeeping_fields:
  assumes "bookkeeping n c s e = (u, s', e')"
  shows "currentNum s' = currentNum (count_step n c s)"
    "currentBytes s' = f64_add (currentBytes s) (f64_of_int n)"
    "finished s' = finished s" "exit s' = exit s"
    "rendered s' = rendered s" "maxLineWidth s' = maxLineWidth s"
    "lastShown s' = lastShown s" "startTime s' = startTime s"
    "currentPercent s' = f64_to_int (f64_mul (f64_div (f64_of_int (currentNum s')) (f64_of_int (max_c c))) (Fin 100))"
    "lastPercent s' = currentPercent s'"
    "u = (currentPercent s' \<noteq> lastPercent s \<and> 0 < currentPercent s')"
    "outside e' = outside e" "written e' = written e" "called e' = called e"
proof -
  obtain s2 e1 where r: "rate_step n (count_step n c s) e = (s2, e1)"
    by (cases "rate_step n (count_step n c s) e")
  obtain u' s3 where q: "percent_step c s2 = (u', s3)" by (cases "percent_step c s2")
  have eq: "u = u'" "s' = s3" "e' = e1"
    using assms r q by (simp_all add: bookkeeping_def)
  note rf = rate_step_fields [OF r] and pf = percent_step_fields [OF q]
  show "currentNum s' = currentNum (count_step n c s)" by (simp add: eq pf rf)
  show "currentBytes s' = f64_add (currentBytes s) (f64_of_int n)"
    by (simp add: eq pf rf count_step_fields)
  show "finished s' = finished s" by (simp add: eq pf rf count_step_fields)
  show "exit s' = exit s" by (simp add: eq pf rf count_step_fields)
  show "rendered s' = rendered s" by (simp add: eq pf rf count_step_fields)
  show "maxLineWidth s' = maxLineWidth s" by (simp add: eq pf rf count_step_fields)
  show "lastShown s' = lastShown s" by (simp add: eq pf rf count_step_fields)
  show "startTime s' = startTime s" by (simp add: eq pf rf count_step_fields)
  show "currentPercent s' = f64_to_int (f64_mul (f64_div (f64_of_int (currentNum s')) (f64_of_int (max_c c))) (Fin 100))"
    by (simp add: eq pf)
  show "lastPercent s' = currentPercent s'" by (simp add: eq pf)
  show "u = (currentPercent s' \<noteq> lastPercent s \<and> 0 < currentPercent s')"
    using pf(14) by (simp add: eq rf count_step_fields)
  show "outside e' = outside e" "written e' = written e" "called e' = called e"
    by (simp_all add: eq rf)
qed

lemma Add64_cases [consumes 1, case_names halted invalid exceeded rendered quiet]:
  assumes "Add64 n p e = (r, p', e')"
  obtains
    "exit (state p)" "r = Returned None" "p' = p" "e' = e"
  | "\<not> exit (state p)" "max_c (config p) = 0" "r = Returned (Some ErrMaxZero)" "p' = p" "e' = e"
  | u s3 where "\<not> exit (state p)" "max_c (config p) \<noteq> 0"
      "bookkeeping n (config p) (state p) e = (u, s3, e')"
      "max_c (config p) < currentNum s3" "r = Returned (Some ErrExceedsMax)"
      "p' = p\<lparr>state := s3\<rparr>"
  | u s3 e1 s4 where "\<not> exit (state p)" "max_c (config p) \<noteq> 0"
      "bookkeeping n (config p) (state p) e = (u, s3, e1)"
      "currentNum s3 \<le> max_c (config p)" "u \<or> showIterationsCount (config p)"
      "render (config p) s3 e1 = (r, s4, e')" "p' = p\<lparr>state := s4\<rparr>"
  | u s3 where "\<not> exit (state p)" "max_c (config p) \<noteq> 0"
      "bookkeeping n (config p) (state p) e = (u, s3, e')"
      "currentNum s3 \<le> max_c (config p)" "\<not> u" "\<not> showIterationsCount (config p)"
      "r = Returned None" "p' = p\<lparr>state := s3\<rparr>"
proof -
  obtain u s3 e1 where b: "bookkeeping n (config p) (state p) e = (u, s3, e1)"
    by (cases "bookkeeping n (config p) (state p) e")
  obtain r4 s4 e2 where rr: "render (config p) s3 e1 = (r4, s4, e2)"
    by (cases "render (config p) s3 e1")
  show ?thesis
    using assms that b rr unfolding Add64_def
    by (auto simp: Let_def split: if_splits)
qed



section \<open>Byte counts: what \<open>humanizeBytes\<close> prints\<close>


lemma ilog2_between:
  assumes "pow2 lo \<le> a" "a < pow2 hi"
  shows "lo \<le> ilog2 a \<and> ilog2 a < hi"
proof -
  have a0: "0 < a" using assms(1) pow2_pos [of lo] by simp
  then have b: "pow2 (ilog2 a) \<le> a" "a < pow2 (ilog2 a + 1)"
    using ilog2_bounds [of a] by auto
  have "\<not> ilog2 a < lo"
  proof
    assume "ilog2 a < lo"
    then have "pow2 (ilog2 a + 1) \<le> pow2 lo" by (intro pow2_mono) simp
    with b assms show False by simp
  qed
  moreover have "\<not> hi \<le> ilog2 a"
  proof
    assume "hi \<le> ilog2 a"
    then have "pow2 hi \<le> pow2 (ilog2 a)" by (rule pow2_mono)
    with b assms show False by simp
  qed
  ultimately show ?thesis by simp
qed

lemma humanizeBytes_small:
  "a < 10 \<Longrightarrow> humanizeBytes lg (Fin a) = Some (pad_left 2 CHR '' '' (fixed 0 a), '' B'')"
  by (simp add: humanizeBytes_def sizes_def)

lemma humanizeBytes_unit:
  assumes "10 \<le> a" "f64_div (lg (Fin a)) (lg (Fin 1024)) = Fin q" "0 \<le> q" "q < 7"
  shows "humanizeBytes lg (Fin a) =
           Some (sprintf_f 0 (if f64_less (scaled (Fin a) (nat \<lfloor>q\<rfloor>)) (Fin 10) then 1 else 0)
                   (scaled (Fin a) (nat \<lfloor>q\<rfloor>)), sizes ! nat \<lfloor>q\<rfloor>)"
proof -
  have f: "0 \<le> \<lfloor>q\<rfloor>" "\<lfloor>q\<rfloor> < 7" using assms(3,4) by (simp_all add: floor_less_iff)
  then have ti: "f64_to_int (Fin (of_int \<lfloor>q\<rfloor>)) = \<lfloor>q\<rfloor>"
    by (simp add: minInt64_def maxInt64_def)
  show ?thesis
    using assms(1) f
    by (simp add: humanizeBytes_def logn_def assms(2) Let_def sizes_def ti del: f64_to_int.simps)
qed

lemma humanizeBytes_panics:
  assumes "10 \<le> a" "f64_div (lg (Fin a)) (lg (Fin 1024)) = Fin q" "q < 0 \<or> 7 \<le> q"
  shows "humanizeBytes lg (Fin a) = None"
proof -
  have "\<lfloor>q\<rfloor> < 0 \<or> 7 \<le> \<lfloor>q\<rfloor>" using assms(3) by (auto simp: floor_less_iff le_floor_iff)
  then have ti: "f64_to_int (Fin (of_int \<lfloor>q\<rfloor>)) < 0 \<or> 7 \<le> f64_to_int (Fin (of_int \<lfloor>q\<rfloor>))"
    by (auto simp: minInt64_def maxInt64_def Let_def)
  show ?thesis
    using assms(1) ti
    by (auto simp: humanizeBytes_def logn_def assms(2) Let_def sizes_def simp del: f64_to_int.simps)
qed

lemma dec_digits: "set (dec n) \<subseteq> set ''0123456789''"
proof (induction n rule: dec.induct)
  case (1 n)
  have d: "\<And>k. k < 10 \<Longrightarrow> ''0123456789'' ! k \<in> set ''0123456789''"
    by (rule nth_mem) simp
  show ?case
  proof (cases "n < 10")
    case True
    then show ?thesis using d [of n] by (subst dec.simps) simp
  next
    case False
    then have "set (dec (n div 10)) \<subseteq> set ''0123456789''" by (rule 1)
    moreover have "''0123456789'' ! (n mod 10) \<in> set ''0123456789''" by (rule d) simp
    ultimately show ?thesis using False by (subst dec.simps) simp
  qed
qed

lemma dec_single: "n < 10 \<Longrightarrow> length (dec n) = 1"
  by (subst dec.simps) simp

lemma fixed_0_no_point: "CHR ''.'' \<notin> set (fixed 0 a)"
  using dec_digits [of "nat (round_even \<bar>a\<bar>)"]
  by (auto simp: fixed_def Let_def)

lemma fixed_1_one_decimal:
  "\<exists>ds d. fixed 1 a = ds @ ''.'' @ [d] \<and> CHR ''.'' \<notin> set ds"
proof -
  define n where "n = nat (round_even (\<bar>a\<bar> * 10))"
  have "length (dec (n mod 10)) = 1" by (rule dec_single) simp
  then obtain d where d: "dec (n mod 10) = [d]" by (cases "dec (n mod 10)") auto
  define ds where "ds = (if a < 0 then ''-'' else []) @ dec (n div 10)"
  have "CHR ''.'' \<notin> set ds"
    using dec_digits [of "n div 10"] by (auto simp: ds_def)
  moreover have "fixed 1 a = ds @ ''.'' @ [d]"
    by (simp add: fixed_def Let_def n_def [symmetric] d ds_def pad_left_def)
  ultimately show ?thesis by blast
qed


lemma f64_round_half:
  assumes "0 < m" "m \<le> 2 ^ 53"
  shows "f64_round (of_int m / 2) = Fin (of_int m / 2)"
proof -
  define x :: rat where "x = of_int m / 2"
  have m1: "(1::rat) \<le> of_int m" using assms by simp
  have m53: "(of_int m :: rat) \<le> 2 ^ 53"
  proof -
    have "(of_int m :: rat) \<le> of_int (2 ^ 53)" using assms by (simp only: of_int_le_iff)
    then show ?thesis by simp
  qed
  have x: "0 < x" "1 / 2 \<le> x" "x \<le> 2 ^ 52" using m1 m53 by (simp_all add: x_def)
  have "pow2 (- 1) \<le> x" using x by (simp add: pow2_def)
  moreover have "x < pow2 (int 53)" using x by (simp only: pow2_nat) simp
  ultimately have e: "- 1 \<le> ilog2 x \<and> ilog2 x < int 53" by (rule ilog2_between)
  then have fe: "fexp x = ilog2 x" by (simp add: fexp_def)
  have "\<exists>j. x / pow2 (fexp x - 52) = of_int j"
  proof (cases "ilog2 x \<le> 51")
    case True
    then have "pow2 (fexp x - 52) = 1 / 2 ^ nat (52 - ilog2 x)"
      by (auto simp add: pow2_def fe)
    moreover have "nat (52 - ilog2 x) = Suc (nat (51 - ilog2 x))" using True by simp
    ultimately have "x / pow2 (fexp x - 52) = of_int (m * 2 ^ nat (51 - ilog2 x))"
      by (simp add: x_def)
    then show ?thesis by blast
  next
    case False
    with e have e52: "ilog2 x = 52" by simp
    have "pow2 (int 52) \<le> x" using ilog2_bounds [of x] x e52 by auto
    with x have "x = 2 ^ 52" by (simp only: pow2_nat)
    moreover have "pow2 (fexp x - 52) = 1" by (simp add: fe e52)
    ultimately have "x / pow2 (fexp x - 52) = of_int (2 ^ 52)" by simp
    then show ?thesis by blast
  qed
  then obtain j where j: "x / pow2 (fexp x - 52) = of_int j" ..
  have "x < pow2 (int 1023)"
  proof -
    have "x < pow2 (int 53)" using x by (simp only: pow2_nat) simp
    also have "pow2 (int 53) \<le> pow2 (int 1023)" by (intro pow2_mono) simp
    finally show ?thesis .
  qed
  then have "x < pow2 1023" by simp
  from f64_round_exact [OF x(1) j this] show ?thesis by (simp add: x_def)
qed

lemma floor_numeral_divide: "\<lfloor>(numeral a :: rat) / numeral b\<rfloor> = numeral a div numeral b"
  using floor_divide_of_int_eq [of "numeral a" "numeral b", where 'a = rat] by simp

lemma round_even_numeral [simp]: "round_even (numeral k) = numeral k"
  using round_even_of_int [of "numeral k"] by simp

lemmas dec_eval =
  dec.simps [of "numeral k" for k] dec.simps [of 0] dec.simps [of 1] dec.simps [of "Suc 0"]

lemmas f64_round_eval =
  f64_round_half [of 2, simplified] f64_round_half [of 20, simplified]
  f64_round_half [of 21, simplified] f64_round_half [of 3, simplified]
  f64_round_half [of 30, simplified] f64_round_half [of 31, simplified]
  f64_round_half [of 200, simplified] f64_round_half [of 201, simplified]

lemma humanizeBytes_5: "humanizeBytes lg (Fin 5) = Some ('' 5'', '' B'')"
  by (simp add: humanizeBytes_def sizes_def fixed_def pad_left_def dec_eval)

lemma logn_next_unit:
  assumes "lg (Fin 1024) = Fin l" "0 < l" "lg s = Fin l'" "l \<le> l'" "l' \<le> 3 / 2 * l"
  shows "\<exists>q. f64_div (lg s) (lg (Fin 1024)) = Fin q \<and> \<lfloor>q\<rfloor> = 1 \<and> 0 \<le> q \<and> q < 7"
proof -
  define x where "x = l' / l"
  have x: "1 \<le> x" "x \<le> 3 / 2" using assms(2,4,5) by (simp_all add: x_def field_simps)
  then have x0: "0 < x" "x \<le> 100" by simp_all
  from f64_round_finite_pos [OF x0(1) lt_pow2_1023 [OF x0(2)]]
  obtain q where q: "f64_round x = Fin q" by blast
  have h: "f64_round (3 / 2) = Fin (3 / 2)" using f64_round_half [of 3] by simp
  have "1 \<le> q" using f64_round_mono_pos [OF _ x(1) f64_round_1 q] by simp
  moreover have "q \<le> 3 / 2" using f64_round_mono_pos [OF x0(1) x(2) q h] .
  ultimately have "\<lfloor>q\<rfloor> = 1" "0 \<le> q" "q < 7" by (simp_all add: floor_eq_iff)
  moreover have "f64_div (lg s) (lg (Fin 1024)) = Fin q"
    using assms(2) by (simp add: assms(1,3) q [unfolded x_def])
  ultimately show ?thesis by blast
qed

lemma humanizeBytes_1024:
  assumes "lg (Fin 1024) = Fin l" "0 < l"
  shows "humanizeBytes lg (Fin 1024) = Some (''1.0'', '' KB'')"
proof -
  from logn_next_unit [of lg l "Fin 1024" l] assms
  obtain q where q: "f64_div (lg (Fin 1024)) (lg (Fin 1024)) = Fin q" "\<lfloor>q\<rfloor> = 1" "0 \<le> q" "q < 7"
    by auto
  from humanizeBytes_unit [of 1024 lg q, OF _ q(1,3,4)] q(2) show ?thesis
    by (simp add: scaled_def f64_round_eval floor_numeral_divide sizes_def fixed_def pad_left_def
        round_even_def dec_eval)
qed

lemma humanizeBytes_1536:
  assumes "lg (Fin 1024) = Fin l" "0 < l" "lg (Fin 1536) = Fin l'" "l \<le> l'" "l' \<le> 3 / 2 * l"
  shows "humanizeBytes lg (Fin 1536) = Some (''1.5'', '' KB'')"
proof -
  from logn_next_unit [OF assms]
  obtain q where q: "f64_div (lg (Fin 1536)) (lg (Fin 1024)) = Fin q" "\<lfloor>q\<rfloor> = 1" "0 \<le> q" "q < 7"
    by auto
  from humanizeBytes_unit [OF _ q(1,3,4)] q(2) show ?thesis
    by (simp add: scaled_def f64_round_eval floor_numeral_divide sizes_def fixed_def pad_left_def
        round_even_def dec_eval)
qed

lemma humanizeBytes_10240:
  assumes "lg (Fin 1024) = Fin l" "0 < l" "lg (Fin 10240) = Fin l'" "l \<le> l'" "l' \<le> 3 / 2 * l"
  shows "humanizeBytes lg (Fin 10240) = Some (''10'', '' KB'')"
proof -
  from logn_next_unit [OF assms]
  obtain q where q: "f64_div (lg (Fin 10240)) (lg (Fin 1024)) = Fin q" "\<lfloor>q\<rfloor> = 1" "0 \<le> q" "q < 7"
    by auto
  from humanizeBytes_unit [OF _ q(1,3,4)] q(2) show ?thesis
    by (simp add: scaled_def f64_round_eval floor_numeral_divide sizes_def fixed_def pad_left_def
        round_even_def dec_eval)
qed



section \<open>Construction and runs\<close>


lemma i64_id: "minInt64 \<le> x \<Longrightarrow> x \<le> maxInt64 \<Longrightarrow> i64 x = x"
  unfolding i64_def minInt64_def maxInt64_def
  by (rule signed_take_bit_int_eq_self) simp_all

lemma apply_Option_fixed:
  "max_c (apply_Option opt c) = max_c c"
  "ignoreLength (apply_Option opt c) = ignoreLength c"
  "predictTime (apply_Option opt c) = predictTime c"
  "elapsedTime (apply_Option opt c) = elapsedTime c"
  "clearOnFinish (apply_Option opt c) = clearOnFinish c"
  "useANSICodes (apply_Option opt c) = useANSICodes c"
  "showDescriptionAtLineEnd (apply_Option opt c) = showDescriptionAtLineEnd c"
  by (cases opt; simp)+

lemma options_fixed:
  "max_c (foldl (\<lambda>c opt. apply_Option opt c) c opts) = max_c c
   \<and> ignoreLength (foldl (\<lambda>c opt. apply_Option opt c) c opts) = ignoreLength c
   \<and> predictTime (foldl (\<lambda>c opt. apply_Option opt c) c opts) = predictTime c
   \<and> elapsedTime (foldl (\<lambda>c opt. apply_Option opt c) c opts) = elapsedTime c
   \<and> clearOnFinish (foldl (\<lambda>c opt. apply_Option opt c) c opts) = clearOnFinish c
   \<and> useANSICodes (foldl (\<lambda>c opt. apply_Option opt c) c opts) = useANSICodes c
   \<and> showDescriptionAtLineEnd (foldl (\<lambda>c opt. apply_Option opt c) c opts)
       = showDescriptionAtLineEnd c"
  by (induction opts arbitrary: c) (simp_all add: apply_Option_fixed)

lemma RenderBlank_frame:
  assumes "RenderBlank p e = (r, p', e')"
  shows "config p' = config p \<and> kept (state p') = kept (state p) \<and> outside e' = outside e
         \<and> (currentNum (state p) < max_c (config p) \<and> \<not> finished (state p)
              \<longrightarrow> \<not> finished (state p') \<and> called e' = called e)"
proof -
  define s where "s = (if currentNum (state p) = 0 then (state p)\<lparr>lastShown := zeroTime\<rparr> else state p)"
  obtain r0 s' e0 where rr: "render (config p) s e = (r0, s', e0)"
    by (cases "render (config p) s e")
  have eq: "p' = p\<lparr>state := s'\<rparr>" "e' = e0"
    using assms rr by (simp_all add: RenderBlank_def s_def Let_def)
  have ks: "kept s = kept (state p)" by (simp add: s_def)
  have cs: "currentNum s = currentNum (state p)" "finished s = finished (state p)"
    by (simp_all add: s_def)
  from render_frame [OF rr] have "kept s' = kept s" "outside e0 = outside e" by auto
  moreover have "currentNum (state p) < max_c (config p) \<and> \<not> finished (state p)
              \<longrightarrow> \<not> finished s' \<and> called e0 = called e"
    using render_unfinished [OF rr] cs by auto
  ultimately show ?thesis by (simp add: eq ks)
qed

lemma NewOptions64_Some:
  assumes "NewOptions64 mx opts e = Some (p, e')"
  shows "max_c (config p) = (if mx = - 1 then width (config p) else mx)"
    and "ignoreLength (config p) = (mx = - 1)"
    and "predictTime (config p) = (mx \<noteq> - 1)"
    and "elapsedTime (config p)" and "\<not> clearOnFinish (config p)"
    and "\<not> useANSICodes (config p)" and "\<not> showDescriptionAtLineEnd (config p)"
    and "currentNum (state p) = 0" and "\<not> exit (state p)" and "lastPercent (state p) = 0"
    and "counterLastTenRates (state p) = []" and "currentBytes (state p) = Fin 0"
    and "counterNumSinceLast (state p) = 0"
    and "outside e' = outside e"
    and "0 < max_c (config p) \<longrightarrow> \<not> finished (state p) \<and> called e' = called e"
proof -
  obtain st e1 where g: "getBasicState e = (st, e1)" by (cases "getBasicState e")
  have st: "st = \<lparr>currentNum = 0, currentPercent = 0, lastPercent = 0, currentSaucerSize = 0,
           isAltSaucerHead = False, startTime = clock e (reads e), lastShown = clock e (reads e),
           counterTime = clock e (reads e), counterNumSinceLast = 0, counterLastTenRates = [],
           maxLineWidth = 0, currentBytes = Fin 0, finished = False, exit = False, rendered = []\<rparr>"
    and e1: "e1 = e\<lparr>reads := Suc (reads e)\<rparr>"
    using g by (auto simp: getBasicState_def Now_def)
  define c0 where "c0 = \<lparr>max_c = mx, maxHumanized = [], maxHumanizedSuffix = [], width = 40,
                writer = os_Stdout e, theme = defaultTheme, renderWithBlankState = False,
                description = [], ignoreLength = False, throttleDuration = 0, spinnerType = 9,
                elapsedTime = True, predictTime = True, showBytes = False,
                showIterationsCount = False, showDescriptionAtLineEnd = False,
                onCompletion = None, fullWidth = False, useANSICodes = False,
                clearOnFinish = False, colorCodes = False\<rparr>"
  define c1 where "c1 = foldl (\<lambda>c opt. apply_Option opt c) c0 opts"
  define c2 where "c2 = (if max_c c1 = - 1
                     then c1\<lparr>ignoreLength := True, max_c := width c1, predictTime := False\<rparr>
                     else c1)"
  have c1: "max_c c1 = mx" "\<not> ignoreLength c1" "predictTime c1" "elapsedTime c1"
    "\<not> clearOnFinish c1" "\<not> useANSICodes c1" "\<not> showDescriptionAtLineEnd c1"
    using options_fixed [of c0 opts] by (simp_all add: c1_def c0_def)
  obtain h sfx where h: "humanizeBytes (math_Log e) (f64_of_int (max_c c2)) = Some (h, sfx)"
    using assms g unfolding NewOptions64_def c0_def [symmetric] c1_def [symmetric] Let_def
      c2_def [symmetric]
    by (auto split: if_splits option.splits)
  define q where "q = \<lparr>state = st, config = c2\<lparr>maxHumanized := h, maxHumanizedSuffix := sfx\<rparr>\<rparr>"
  have q: "config q = c2\<lparr>maxHumanized := h, maxHumanizedSuffix := sfx\<rparr>" "state q = st"
    by (simp_all add: q_def)
  have res: "(renderWithBlankState c2 \<and> (\<exists>r. RenderBlank q e1 = (r, p, e'))) \<or> (p = q \<and> e' = e1)"
    using assms g h unfolding NewOptions64_def c0_def [symmetric] c1_def [symmetric] Let_def
      c2_def [symmetric]
    by (auto simp: q_def split: if_splits option.splits prod.splits outcome.splits)
  have frame: "config p = config q \<and> kept (state p) = kept (state q) \<and> outside e' = outside e1
         \<and> (currentNum (state q) < max_c (config q) \<and> \<not> finished (state q)
              \<longrightarrow> \<not> finished (state p) \<and> called e' = called e1)"
    using res by (auto dest: RenderBlank_frame)
  then have cp: "config p = c2\<lparr>maxHumanized := h, maxHumanizedSuffix := sfx\<rparr>"
    and kp: "kept (state p) = kept st" by (simp_all add: q)
  note kf = kept_fields [OF kp]
  show "max_c (config p) = (if mx = - 1 then width (config p) else mx)"
    using c1 by (simp add: cp c2_def)
  show "ignoreLength (config p) = (mx = - 1)" using c1 by (simp add: cp c2_def)
  show "predictTime (config p) = (mx \<noteq> - 1)" using c1 by (simp add: cp c2_def)
  show "elapsedTime (config p)" using c1 by (simp add: cp c2_def)
  show "\<not> clearOnFinish (config p)" using c1 by (simp add: cp c2_def)
  show "\<not> useANSICodes (config p)" using c1 by (simp add: cp c2_def)
  show "\<not> showDescriptionAtLineEnd (config p)" using c1 by (simp add: cp c2_def)
  show "currentNum (state p) = 0" using kf by (simp add: st)
  show "\<not> exit (state p)" using kf by (simp add: st)
  show "lastPercent (state p) = 0" using kf by (simp add: st)
  show "counterLastTenRates (state p) = []" using kf by (simp add: st)
  show "currentBytes (state p) = Fin 0" using kf by (simp add: st)
  show "counterNumSinceLast (state p) = 0" using kf by (simp add: st)
  show "outside e' = outside e" using frame by (simp add: e1)
  show "0 < max_c (config p) \<longrightarrow> \<not> finished (state p) \<and> called e' = called e"
    using frame by (simp add: q cp st e1)
qed

lemma Add64_frame:
  assumes "Add64 n p e = (r, p', e')"
  shows "config p' = config p \<and> exit (state p') = exit (state p) \<and> outside e' = outside e \<and>
    currentNum (state p') =
       (if exit (state p) \<or> max_c (config p) = 0 then currentNum (state p)
        else currentNum (count_step n (config p) (state p))) \<and>
    currentBytes (state p') =
       (if exit (state p) \<or> max_c (config p) = 0 then currentBytes (state p)
        else f64_add (currentBytes (state p)) (f64_of_int n))"
  using assms
proof (cases rule: Add64_cases)
  case halted
  then show ?thesis by simp
next
  case invalid
  then show ?thesis by simp
next
  case (exceeded u s3)
  note bf = bookkeeping_fields [OF exceeded(3)]
  show ?thesis using exceeded(1,2,6) bf by simp
next
  case (rendered u s3 e1 s4)
  note bf = bookkeeping_fields [OF rendered(3)]
  from render_frame [OF rendered(6)] have k: "kept s4 = kept s3" and o: "outside e' = outside e1"
    by auto
  note kf = kept_fields [OF k]
  show ?thesis using rendered(1,2,7) bf kf o by simp
next
  case (quiet u s3)
  note bf = bookkeeping_fields [OF quiet(3)]
  show ?thesis using quiet(1,2,8) bf by simp
qed


lemma Adds_frame:
  "Adds ns p e = (rs, p', e') \<Longrightarrow>
     config p' = config p \<and> exit (state p') = exit (state p) \<and> outside e' = outside e
     \<and> length rs = length ns"
proof (induction ns arbitrary: p e rs p' e')
  case Nil
  then show ?case by simp
next
  case (Cons n ns)
  obtain r p1 e1 where a: "Add64 n p e = (r, p1, e1)" by (cases "Add64 n p e")
  obtain rs1 p2 e2 where b: "Adds ns p1 e1 = (rs1, p2, e2)" by (cases "Adds ns p1 e1")
  from Cons.prems a b have eq: "rs = r # rs1" "p' = p2" "e' = e2" by simp_all
  from Cons.IH [OF b] Add64_frame [OF a] show ?case by (simp add: eq)
qed

lemma Adds_append:
  "Adds (ns @ ms) p e =
     (case Adds ns p e of (rs, p', e') \<Rightarrow>
        (case Adds ms p' e' of (rs', p'', e'') \<Rightarrow> (rs @ rs', p'', e'')))"
  by (induction ns arbitrary: p e) (auto split: prod.splits)

lemma Adds_stuck:
  "Adds ns p e = (rs, p', e') \<Longrightarrow> max_c (config p) \<le> currentNum (state p) \<Longrightarrow>
     currentNum (state p') = currentNum (state p)"
proof (induction ns arbitrary: p e rs p' e')
  case Nil
  then show ?case by simp
next
  case (Cons n ns)
  obtain r p1 e1 where a: "Add64 n p e = (r, p1, e1)" by (cases "Add64 n p e")
  obtain rs1 p2 e2 where b: "Adds ns p1 e1 = (rs1, p2, e2)" by (cases "Adds ns p1 e1")
  from Cons.prems a b have eq: "p' = p2" by simp
  have c: "config p1 = config p" "currentNum (state p1) = currentNum (state p)"
    using Add64_frame [OF a] Cons.prems(2) by (simp_all add: count_step_fields)
  from Cons.IH [OF b] c Cons.prems(2) show ?case by (simp add: eq)
qed

lemma tracker_invariant:
  "tracker p \<Longrightarrow>
     (max_c (config p) = 0 \<longrightarrow> currentNum (state p) = 0)
     \<and> \<not> clearOnFinish (config p) \<and> \<not> useANSICodes (config p)
     \<and> \<not> showDescriptionAtLineEnd (config p) \<and> elapsedTime (config p)
     \<and> predictTime (config p) = (\<not> ignoreLength (config p))"
proof (induction rule: tracker.induct)
  case (new mx opts e p e')
  from NewOptions64_Some [OF new] show ?case by simp
next
  case (add p n e r p' e')
  from Add64_frame [OF add(2)] add(3) show ?case by auto
next
  case (halt p)
  then show ?case by simp
qed

lemma Add64_below:
  assumes "Add64 n p e = (r, p', e')" "\<not> exit (state p)" "\<not> ignoreLength (config p)"
    "currentNum (state p) < max_c (config p)" "max_c (config p) \<noteq> 0"
  shows "currentNum (state p') = i64 (currentNum (state p) + n)"
  using Add64_frame [OF assms(1)] assms(2-5) by (simp add: count_step_fields)

lemma Add64_beyond:
  assumes "Add64 n p e = (r, p', e')" "\<not> exit (state p)"
    "max_c (config p) < currentNum (state p)" "max_c (config p) \<noteq> 0"
  shows "r = Returned (Some ErrExceedsMax) \<and> currentNum (state p') = currentNum (state p)
         \<and> currentBytes (state p') = f64_add (currentBytes (state p)) (f64_of_int n)"
  using assms(1)
proof (cases rule: Add64_cases)
  case (exceeded u s3)
  with Add64_frame [OF assms(1)] assms(2-4) show ?thesis by (simp add: count_step_fields)
next
  case (rendered u s3 e1 s4)
  from bookkeeping_fields(1) [OF rendered(3)] assms(3) rendered(4)
  show ?thesis by (simp add: count_step_fields)
next
  case (quiet u s3)
  from bookkeeping_fields(1) [OF quiet(3)] assms(3) quiet(4)
  show ?thesis by (simp add: count_step_fields)
qed (use assms in auto)

lemma Adds_beyond:
  "Adds ns p e = (rs, p', e') \<Longrightarrow> \<not> exit (state p) \<Longrightarrow>
     max_c (config p) < currentNum (state p) \<Longrightarrow> max_c (config p) \<noteq> 0 \<Longrightarrow>
     currentNum (state p') = currentNum (state p)
     \<and> (\<forall>r \<in> set rs. r = Returned (Some ErrExceedsMax))
     \<and> currentBytes (state p') = foldl (\<lambda>b n. f64_add b (f64_of_int n)) (currentBytes (state p)) ns"
proof (induction ns arbitrary: p e rs p' e')
  case Nil
  then show ?case by simp
next
  case (Cons n ns)
  obtain r p1 e1 where a: "Add64 n p e = (r, p1, e1)" by (cases "Add64 n p e")
  obtain rs1 p2 e2 where b: "Adds ns p1 e1 = (rs1, p2, e2)" by (cases "Adds ns p1 e1")
  from Cons.prems a b have eq: "rs = r # rs1" "p' = p2" by simp_all
  note s = Add64_beyond [OF a Cons.prems(2,3,4)]
  note f = Add64_frame [OF a]
  have "currentNum (state p2) = currentNum (state p1)
     \<and> (\<forall>r \<in> set rs1. r = Returned (Some ErrExceedsMax))
     \<and> currentBytes (state p2) = foldl (\<lambda>b n. f64_add b (f64_of_int n)) (currentBytes (state p1)) ns"
    using Cons.prems(2,3,4) s f by (intro Cons.IH [OF b]) simp_all
  with s show ?case by (simp add: eq)
qed


lemma f64_round_111_16: "f64_round (111 / 16) = Fin (111 / 16)"
proof -
  define x :: rat where "x = 111 / 16"
  have fe: "fexp x = 2"
    by (rule fexp_eqI) (simp_all add: pow2_def x_def)
  have "x / pow2 (fexp x - 52) = of_int (111 * 2 ^ 46)"
    unfolding fe by (simp add: pow2_def x_def)
  moreover have "0 < x" by (simp add: x_def)
  moreover have "x < pow2 1023" by (rule lt_pow2_1023) (simp add: x_def)
  ultimately have "f64_round x = Fin x" by (intro f64_round_exact) auto
  then show ?thesis by (simp add: x_def)
qed

lemma example_Log_1024: "example_Log (Fin 1024) = Fin 10"
proof -
  have "ilog2 1024 = 10" by (rule ilog2_unique) (simp_all add: pow2_def)
  then show ?thesis by simp
qed

lemma humanizeBytes_total:
  assumes "a < 1024 ^ 7"
  shows "\<exists>h sfx. humanizeBytes example_Log (Fin a) = Some (h, sfx)"
proof (cases "a < 10")
  case True
  then show ?thesis by (simp add: humanizeBytes_small)
next
  case False
  have "pow2 (int 3) \<le> a" using False by (simp only: pow2_nat) simp
  moreover have "a < pow2 (int 70)" using assms by (simp only: pow2_nat) simp
  ultimately have e: "int 3 \<le> ilog2 a \<and> ilog2 a < int 70" by (rule ilog2_between)
  have a0: "0 < a" using False by simp
  define x :: rat where "x = of_int (ilog2 a) / 10"
  have "(of_int 3 :: rat) \<le> of_int (ilog2 a)" "(of_int (ilog2 a) :: rat) \<le> of_int 69"
    using e by (simp_all only: of_int_le_iff) simp_all
  then have x: "0 < x" "x \<le> 111 / 16" by (simp_all add: x_def)
  then have "x \<le> 100" by simp
  from f64_round_finite_pos [OF x(1) lt_pow2_1023 [OF this]]
  obtain q where q: "f64_round x = Fin q" "0 \<le> q" by blast
  have "q \<le> 111 / 16" using f64_round_mono_pos [OF x q(1) f64_round_111_16] .
  then have q7: "q < 7" by simp
  have "example_Log (Fin a) = Fin (of_int (ilog2 a))" using a0 by simp
  then have "f64_div (example_Log (Fin a)) (example_Log (Fin 1024)) = Fin q"
    unfolding example_Log_1024 using q(1) by (simp add: x_def)
  from humanizeBytes_unit [OF _ this q(2) q7] False show ?thesis by simp
qed

lemma NewOptions64_plain:
  assumes "0 \<le> mx" "mx < 2 ^ 53" "math_Log e = example_Log"
  shows "\<exists>p e'. NewOptions64 mx [] e = Some (p, e')"
proof -
  have f: "f64_of_int mx = Fin (of_int mx)" using assms by (intro f64_of_int_exact) auto
  have "(of_int mx :: rat) < of_int (2 ^ 53)" using assms by (simp only: of_int_less_iff)
  then have "(of_int mx :: rat) < 1024 ^ 7" by simp
  then obtain h sfx where "humanizeBytes example_Log (Fin (of_int mx)) = Some (h, sfx)"
    using humanizeBytes_total by blast
  then show ?thesis
    using assms(1,3) by (simp add: NewOptions64_def getBasicState_def Now_def Let_def f)
qed

lemma round_even_minus: "round_even (- z) = - round_even z"
proof (cases "z \<in> \<int>")
  case True
  then obtain k where "z = of_int k" by (auto elim: Ints_cases)
  then have "- z = of_int (- k)" by simp
  then show ?thesis unfolding \<open>z = of_int k\<close> by (simp only: round_even_of_int)
next
  case False
  then have ne: "z \<noteq> of_int \<lfloor>z\<rfloor>" by (metis Ints_of_int)
  then have f: "\<lfloor>- z\<rfloor> = - \<lfloor>z\<rfloor> - 1"
    by (simp add: ceiling_altdef floor_minus)
  have d: "z - of_int \<lfloor>z\<rfloor> \<noteq> 0" using ne by simp
  show ?thesis
    unfolding round_even_def Let_def f using d
    by (auto simp: field_simps)
qed

lemma ilog2_minus: "ilog2 (- x) = ilog2 x"
  by (simp add: ilog2_def)

lemma f64_round_minus: "f64_round (- x) = f64_neg (f64_round x)"
  by (simp add: f64_round_def fexp_def ilog2_minus round_even_minus Let_def)

lemma f64_of_int_negative:
  assumes "n \<le> 0" "- (2 ^ 53) \<le> n"
  shows "f64_of_int n = Fin (of_int n)"
proof -
  have "f64_of_int (- n) = Fin (of_int (- n))" using assms by (intro f64_of_int_exact) auto
  then have "f64_round (- of_int n) = Fin (- of_int n)" by (simp add: f64_of_int_def)
  then have "f64_neg (f64_round (of_int n)) = Fin (- of_int n)" by (simp only: f64_round_minus)
  then show ?thesis by (cases "f64_round (of_int n)") (simp_all add: f64_of_int_def)
qed

lemma NewOptions64_negative:
  assumes "mx < 0" "mx \<noteq> - 1" "- (2 ^ 53) \<le> mx"
  shows "\<exists>p e'. NewOptions64 mx [] e = Some (p, e')"
proof -
  have f: "f64_of_int mx = Fin (of_int mx)" using assms by (intro f64_of_int_negative) auto
  have "(of_int mx :: rat) < 10" using assms by simp
  then have "humanizeBytes (math_Log e) (Fin (of_int mx))
               = Some (pad_left 2 CHR '' '' (fixed 0 (of_int mx)), '' B'')"
    by (rule humanizeBytes_small)
  then show ?thesis
    using assms(2) by (simp add: NewOptions64_def getBasicState_def Now_def Let_def f)
qed

lemma example_env_Log: "math_Log example_env = example_Log" "math_Log slow_env = example_Log"
  by (simp_all add: example_env_def slow_env_def)



section \<open>The counter and the maximum\<close>


lemma plain_bar_new:
  assumes "0 \<le> mx" "mx < 2 ^ 53"
  shows "NewOptions64 mx [] example_env = Some (fst (plain_bar mx), snd (plain_bar mx))"
  using NewOptions64_plain [OF assms example_env_Log(1)] by (auto simp: plain_bar_def)

lemma Adds_overshoot:
  assumes "Adds ns p e = (rs, p', e')" "\<not> ignoreLength (config p)"
    "currentNum (state p) \<le> max_c (config p)" "max_c (config p) < currentNum (state p')"
  shows "\<exists>ns1 m ns2 rs1 q e1 r1 q' e2.
           ns = ns1 @ m # ns2 \<and> Adds ns1 p e = (rs1, q, e1) \<and> Add64 m q e1 = (r1, q', e2)
         \<and> currentNum (state q) < max_c (config p)
         \<and> currentNum (state q') = i64 (currentNum (state q) + m)
         \<and> currentNum (state p') = currentNum (state q')"
  using assms
proof (induction ns arbitrary: p e rs)
  case Nil
  then show ?case by simp
next
  case (Cons n ns)
  obtain r p1 e1 where a: "Add64 n p e = (r, p1, e1)" by (cases "Add64 n p e")
  obtain rs1 p2 e2 where b: "Adds ns p1 e1 = (rs1, p2, e2)" by (cases "Adds ns p1 e1")
  from Cons.prems(1) a b have eq: "rs = r # rs1" "p' = p2" "e' = e2" by simp_all
  note f = Add64_frame [OF a]
  show ?case
  proof (cases "max_c (config p) < currentNum (state p1)")
    case True
    have c: "currentNum (state p) < max_c (config p)"
      "currentNum (state p1) = i64 (currentNum (state p) + n)"
      using f True Cons.prems(2,3) by (auto simp: count_step_fields split: if_splits)
    have "currentNum (state p') = currentNum (state p1)"
      using Adds_stuck [OF b] f True by (simp add: eq)
    with a c have "n # ns = [] @ n # ns \<and> Adds [] p e = ([], p, e) \<and> Add64 n p e = (r, p1, e1)
         \<and> currentNum (state p) < max_c (config p)
         \<and> currentNum (state p1) = i64 (currentNum (state p) + n)
         \<and> currentNum (state p') = currentNum (state p1)"
      by simp
    then show ?thesis by blast
  next
    case False
    have "\<exists>ns1 m ns2 rs1 q e1' r1 q' e2.
           ns = ns1 @ m # ns2 \<and> Adds ns1 p1 e1 = (rs1, q, e1') \<and> Add64 m q e1' = (r1, q', e2)
         \<and> currentNum (state q) < max_c (config p1)
         \<and> currentNum (state q') = i64 (currentNum (state q) + m)
         \<and> currentNum (state p') = currentNum (state q')"
      using f False Cons.prems(2,4) by (intro Cons.IH [OF b [unfolded eq(2,3) [symmetric]]]) simp_all
    then obtain ns1 m ns2 rs1' q e1' r1 q' e2' where h:
      "ns = ns1 @ m # ns2" "Adds ns1 p1 e1 = (rs1', q, e1')" "Add64 m q e1' = (r1, q', e2')"
      "currentNum (state q) < max_c (config p1)"
      "currentNum (state q') = i64 (currentNum (state q) + m)"
      "currentNum (state p') = currentNum (state q')"
      by blast
    from h a f have "n # ns = (n # ns1) @ m # ns2 \<and> Adds (n # ns1) p e = (r # rs1', q, e1')
         \<and> Add64 m q e1' = (r1, q', e2')
         \<and> currentNum (state q) < max_c (config p)
         \<and> currentNum (state q') = i64 (currentNum (state q) + m)
         \<and> currentNum (state p') = currentNum (state q')"
      by simp
    then show ?thesis by blast
  qed
qed

lemma run_past_max:
  assumes "NewOptions64 mx opts e0 = Some (p0, e1)" "Adds ns p0 e1 = (rs, p, e2)"
    "\<not> ignoreLength (config p)" "max_c (config p) < currentNum (state p)"
  shows "(mx < 0 \<and> currentNum (state p) = 0)
       \<or> (0 < mx \<and> (\<exists>ns1 m ns2 rs1 q e3 r1 q' e4.
              ns = ns1 @ m # ns2 \<and> Adds ns1 p0 e1 = (rs1, q, e3) \<and> Add64 m q e3 = (r1, q', e4)
            \<and> currentNum (state q) < max_c (config p)
            \<and> currentNum (state q') = i64 (currentNum (state q) + m)
            \<and> currentNum (state p) = currentNum (state q')))"
proof -
  note n = NewOptions64_Some [OF assms(1)]
  note f = Adds_frame [OF assms(2)]
  have k: "\<not> ignoreLength (config p0)" "max_c (config p0) = mx" "currentNum (state p0) = 0"
    "max_c (config p) = mx"
    using n f assms(3) by simp_all
  show ?thesis
  proof (cases "mx < 0")
    case True
    with Adds_stuck [OF assms(2)] k show ?thesis by simp
  next
    case False
    with k have le: "currentNum (state p0) \<le> max_c (config p0)" by simp
    have lt: "max_c (config p0) < currentNum (state p)" using assms(4) k by simp
    have "0 < mx"
    proof (rule ccontr)
      assume "\<not> 0 < mx"
      with False have "mx = 0" by simp
      with Adds_stuck [OF assms(2)] k assms(4) show False by simp
    qed
    with Adds_overshoot [OF assms(2) k(1) le lt] k show ?thesis by simp
  qed
qed

text \<open>
  Claim C10, as the code has it.  For a bar of known length that a program holds: a call
  of \<open>Add64\<close> leaves the counter alone when it is not below the maximum and otherwise
  adds the delta, so a counter that a call has taken beyond the maximum was below it
  before and passed it by this call's delta; once the counter is beyond the maximum a
  call on a bar that is not halted returns the error "current number exceeds max",
  keeps the counter, adds the delta to the byte total, and so does every later call.
  And over a run of calls from the construction: a counter beyond the maximum is
  either the 0 of a bar made with a maximum below 0, which no call has changed, or, on
  a bar made with a maximum above 0, the sum that one call of the run left when it
  found the counter below the maximum.
\<close>

theorem count_past_max:
  assumes "tracker p" "\<not> ignoreLength (config p)" "Add64 n p e = (r, p', e')"
  shows "(max_c (config p) \<le> currentNum (state p) \<longrightarrow> currentNum (state p') = currentNum (state p))
     \<and> (\<not> exit (state p) \<and> currentNum (state p) < max_c (config p)
          \<longrightarrow> currentNum (state p') = i64 (currentNum (state p) + n))
     \<and> (max_c (config p) < currentNum (state p') \<and> currentNum (state p) \<le> max_c (config p)
          \<longrightarrow> currentNum (state p) < max_c (config p)
              \<and> currentNum (state p') = i64 (currentNum (state p) + n))
     \<and> (\<not> exit (state p) \<and> max_c (config p) < currentNum (state p)
          \<longrightarrow> r = Returned (Some ErrExceedsMax)
              \<and> currentNum (state p') = currentNum (state p)
              \<and> currentBytes (state p') = f64_add (currentBytes (state p)) (f64_of_int n)
              \<and> (\<forall>ns rs q e2. Adds ns p' e' = (rs, q, e2)
                    \<longrightarrow> currentNum (state q) = currentNum (state p)
                        \<and> (\<forall>r \<in> set rs. r = Returned (Some ErrExceedsMax))))
     \<and> (\<forall>mx opts e0 p0 e1 ns rs e2.
           NewOptions64 mx opts e0 = Some (p0, e1) \<and> Adds ns p0 e1 = (rs, p, e2)
           \<and> max_c (config p) < currentNum (state p)
           \<longrightarrow> (mx < 0 \<and> currentNum (state p) = 0)
               \<or> (0 < mx \<and> (\<exists>ns1 m ns2 rs1 q e3 r1 q' e4.
                      ns = ns1 @ m # ns2 \<and> Adds ns1 p0 e1 = (rs1, q, e3)
                    \<and> Add64 m q e3 = (r1, q', e4)
                    \<and> currentNum (state q) < max_c (config p)
                    \<and> currentNum (state q') = i64 (currentNum (state q) + m)
                    \<and> currentNum (state p) = currentNum (state q'))))"
proof -
  note f = Add64_frame [OF assms(3)]
  from tracker_invariant [OF assms(1)]
  have z: "max_c (config p) = 0 \<longrightarrow> currentNum (state p) = 0" by simp
  have a: "max_c (config p) \<le> currentNum (state p) \<longrightarrow> currentNum (state p') = currentNum (state p)"
    using f by (simp add: count_step_fields)
  have b: "\<not> exit (state p) \<and> currentNum (state p) < max_c (config p)
          \<longrightarrow> currentNum (state p') = i64 (currentNum (state p) + n)"
    using f z assms(2) by (auto simp add: count_step_fields)
  have c: "max_c (config p) < currentNum (state p') \<and> currentNum (state p) \<le> max_c (config p)
          \<longrightarrow> currentNum (state p) < max_c (config p)
              \<and> currentNum (state p') = i64 (currentNum (state p) + n)"
    using f z assms(2) by (auto simp add: count_step_fields split: if_splits)
  have d: "r = Returned (Some ErrExceedsMax)
              \<and> currentNum (state p') = currentNum (state p)
              \<and> currentBytes (state p') = f64_add (currentBytes (state p)) (f64_of_int n)
              \<and> (\<forall>ns rs q e2. Adds ns p' e' = (rs, q, e2)
                    \<longrightarrow> currentNum (state q) = currentNum (state p)
                        \<and> (\<forall>r \<in> set rs. r = Returned (Some ErrExceedsMax)))"
    if h: "\<not> exit (state p)" "max_c (config p) < currentNum (state p)"
  proof -
    have m: "max_c (config p) \<noteq> 0" using z h by auto
    note s = Add64_beyond [OF assms(3) h m]
    have "currentNum (state q) = currentNum (state p)
             \<and> (\<forall>r \<in> set rs. r = Returned (Some ErrExceedsMax))"
      if "Adds ns p' e' = (rs, q, e2)" for ns rs q e2
      using Adds_beyond [OF that] f s h m by simp
    with s show ?thesis by blast
  qed
  have e: "(mx < 0 \<and> currentNum (state p) = 0)
               \<or> (0 < mx \<and> (\<exists>ns1 m ns2 rs1 q e3 r1 q' e4.
                      ns = ns1 @ m # ns2 \<and> Adds ns1 p0 e1 = (rs1, q, e3)
                    \<and> Add64 m q e3 = (r1, q', e4)
                    \<and> currentNum (state q) < max_c (config p)
                    \<and> currentNum (state q') = i64 (currentNum (state q) + m)
                    \<and> currentNum (state p) = currentNum (state q')))"
    if "NewOptions64 mx opts e0 = Some (p0, e1)" "Adds ns p0 e1 = (rs, p, e2)"
      "max_c (config p) < currentNum (state p)" for mx opts e0 p0 e1 ns rs e2
    using that(1,2) assms(2) that(3) by (rule run_past_max)
  from d have d': "\<not> exit (state p) \<and> max_c (config p) < currentNum (state p)
          \<longrightarrow> r = Returned (Some ErrExceedsMax)
              \<and> currentNum (state p') = currentNum (state p)
              \<and> currentBytes (state p') = f64_add (currentBytes (state p)) (f64_of_int n)
              \<and> (\<forall>ns rs q e2. Adds ns p' e' = (rs, q, e2)
                    \<longrightarrow> currentNum (state q) = currentNum (state p)
                        \<and> (\<forall>r \<in> set rs. r = Returned (Some ErrExceedsMax)))"
    by blast
  from e have e': "\<forall>mx opts e0 p0 e1 ns rs e2.
           NewOptions64 mx opts e0 = Some (p0, e1) \<and> Adds ns p0 e1 = (rs, p, e2)
           \<and> max_c (config p) < currentNum (state p)
           \<longrightarrow> (mx < 0 \<and> currentNum (state p) = 0)
               \<or> (0 < mx \<and> (\<exists>ns1 m ns2 rs1 q e3 r1 q' e4.
                      ns = ns1 @ m # ns2 \<and> Adds ns1 p0 e1 = (rs1, q, e3)
                    \<and> Add64 m q e3 = (r1, q', e4)
                    \<and> currentNum (state q) < max_c (config p)
                    \<and> currentNum (state q') = i64 (currentNum (state q) + m)
                    \<and> currentNum (state p) = currentNum (state q')))"
    by blast
  show ?thesis
    by (intro conjI) (rule a, rule b, rule c, rule d', rule e')
qed

theorem count_past_max_witness:
  "tracker (fst (plain_bar 10)) \<and> \<not> ignoreLength (config (fst (plain_bar 10)))
   \<and> \<not> exit (state (fst (plain_bar 10)))
   \<and> currentNum (state (fst (plain_bar 10))) < max_c (config (fst (plain_bar 10)))
   \<and> currentNum (state (fst overshot_bar)) = i64 (currentNum (state (fst (plain_bar 10))) + 11)
   \<and> tracker (fst overshot_bar) \<and> \<not> ignoreLength (config (fst overshot_bar))
   \<and> \<not> exit (state (fst overshot_bar))
   \<and> max_c (config (fst overshot_bar)) < currentNum (state (fst overshot_bar))
   \<and> fst (Add64 5 (fst overshot_bar) (snd overshot_bar)) = Returned (Some ErrExceedsMax)
   \<and> currentNum (state (fst (snd (Add64 5 (fst overshot_bar) (snd overshot_bar)))))
       = currentNum (state (fst overshot_bar))
   \<and> currentBytes (state (fst (snd (Add64 5 (fst overshot_bar) (snd overshot_bar)))))
       = f64_add (currentBytes (state (fst overshot_bar))) (f64_of_int 5)
   \<and> NewOptions64 10 [] example_env = Some (plain_bar 10)
   \<and> snd (Adds [11] (fst (plain_bar 10)) (snd (plain_bar 10))) = overshot_bar
   \<and> (\<exists>ns1 m ns2 q. [11] = ns1 @ m # ns2
         \<and> q = fst (snd (Adds ns1 (fst (plain_bar 10)) (snd (plain_bar 10))))
         \<and> currentNum (state q) < max_c (config (fst overshot_bar))
         \<and> currentNum (state (fst overshot_bar)) = i64 (currentNum (state q) + m))"
proof -
  define p where "p = fst (plain_bar 10)"
  define e where "e = snd (plain_bar 10)"
  have new: "NewOptions64 10 [] example_env = Some (p, e)"
    unfolding p_def e_def by (rule plain_bar_new) simp_all
  have t: "tracker p" using new by (rule tracker.new)
  note n = NewOptions64_Some [OF new]
  have k: "\<not> ignoreLength (config p)" "\<not> exit (state p)" "currentNum (state p) = 0"
    "max_c (config p) = 10"
    using n by simp_all
  define p' where "p' = fst overshot_bar"
  define e' where "e' = snd overshot_bar"
  define r0 where "r0 = fst (Add64 11 p e)"
  have a: "Add64 11 p e = (r0, p', e')"
    by (simp add: r0_def p'_def e'_def overshot_bar_def p_def e_def)
  have i: "i64 11 = 11" by (rule i64_id) (simp_all add: minInt64_def maxInt64_def)
  from count_past_max [OF t k(1) a] k
  have c: "currentNum (state p') = i64 (currentNum (state p) + 11)" by simp
  have t': "tracker p'" using t a by (rule tracker.add)
  note f = Add64_frame [OF a]
  have k': "\<not> ignoreLength (config p')" "\<not> exit (state p')"
    "max_c (config p') < currentNum (state p')"
    using f k c i by simp_all
  obtain r q e2 where b: "Add64 5 p' e' = (r, q, e2)" by (cases "Add64 5 p' e'")
  have run: "Adds [11] p e = ([r0], p', e')"
    by (simp add: a)
  from count_past_max [OF t' k'(1) b] k'
  have u: "r = Returned (Some ErrExceedsMax) \<and> currentNum (state q) = currentNum (state p')
      \<and> currentBytes (state q) = f64_add (currentBytes (state p')) (f64_of_int 5)"
    by simp
  from count_past_max [OF t' k'(1) b, THEN conjunct2, THEN conjunct2, THEN conjunct2,
      THEN conjunct2, rule_format, of 10 "[]" example_env p e "[11]" "[r0]" e'] new run k'(3)
  have "\<exists>ns1 m ns2 rs1 q e3 r1 q' e4.
           [11] = ns1 @ m # ns2 \<and> Adds ns1 p e = (rs1, q, e3) \<and> Add64 m q e3 = (r1, q', e4)
         \<and> currentNum (state q) < max_c (config p')
         \<and> currentNum (state q') = i64 (currentNum (state q) + m)
         \<and> currentNum (state p') = currentNum (state q')"
    by simp
  then obtain ns1 m ns2 rs1 q0 e3 where h: "[11] = ns1 @ m # ns2" "Adds ns1 p e = (rs1, q0, e3)"
    "currentNum (state q0) < max_c (config p')"
    "currentNum (state p') = i64 (currentNum (state q0) + m)"
    by auto
  then have v: "\<exists>ns1 m ns2 q. [11] = ns1 @ m # ns2 \<and> q = fst (snd (Adds ns1 p e))
         \<and> currentNum (state q) < max_c (config p')
         \<and> currentNum (state p') = i64 (currentNum (state q) + m)"
    by (intro exI [of _ ns1] exI [of _ m] exI [of _ ns2] exI [of _ q0]) simp
  have w: "NewOptions64 10 [] example_env = Some (plain_bar 10)"
    using new by (simp add: p_def e_def)
  have x: "snd (Adds [11] p e) = overshot_bar"
    using run by (simp add: p'_def e'_def)
  from u v w x show ?thesis
    using t k c t' k' b
    unfolding p_def [symmetric] e_def [symmetric] p'_def [symmetric] e'_def [symmetric]
    by simp
qed

text \<open>
  Claim C10 as it is worded has the counter beyond the maximum only after a call whose
  delta took it there from below.  The bar that \<open>NewOptions64 (- 5)\<close> makes is of known
  length, and its counter, 0, is beyond its maximum, - 5, before any call of \<open>Add64\<close>.
\<close>

theorem negative_max_is_passed_from_the_start:
  "(case NewOptions64 (- 5) [] example_env of
      None \<Rightarrow> False
    | Some (p, e) \<Rightarrow> tracker p \<and> \<not> ignoreLength (config p)
                     \<and> currentNum (state p) = 0 \<and> max_c (config p) = - 5
                     \<and> max_c (config p) < currentNum (state p))"
proof -
  from NewOptions64_negative [of "- 5" example_env]
  obtain p e where new: "NewOptions64 (- 5) [] example_env = Some (p, e)" by auto
  have t: "tracker p" using new by (rule tracker.new)
  from NewOptions64_Some [OF new] t show ?thesis by (simp add: new)
qed



section \<open>After the bar is complete\<close>


lemma Add64_percent:
  assumes "Add64 n p e = (r, p', e')" "\<not> exit (state p)" "max_c (config p) \<noteq> 0"
  shows "currentPercent (state p') =
           f64_to_int (f64_mul (f64_div (f64_of_int (currentNum (state p')))
                                        (f64_of_int (max_c (config p)))) (Fin 100))
         \<and> lastPercent (state p') = currentPercent (state p')"
  using assms(1)
proof (cases rule: Add64_cases)
  case (exceeded u s3)
  with bookkeeping_fields [OF exceeded(3)] show ?thesis by simp
next
  case (rendered u s3 e1 s4)
  from render_frame [OF rendered(6)] have "kept s4 = kept s3" by simp
  note kf = kept_fields [OF this]
  with bookkeeping_fields [OF rendered(3)] rendered(7) show ?thesis by simp
next
  case (quiet u s3)
  with bookkeeping_fields [OF quiet(3)] show ?thesis by simp
qed (use assms in auto)

lemma Adds_units:
  "Adds (replicate k 1) p e = (rs, p', e') \<Longrightarrow> \<not> ignoreLength (config p) \<Longrightarrow>
   \<not> exit (state p) \<Longrightarrow> max_c (config p) \<noteq> 0 \<Longrightarrow> minInt64 \<le> currentNum (state p) \<Longrightarrow>
   currentNum (state p) + int k \<le> max_c (config p) \<Longrightarrow> max_c (config p) \<le> maxInt64 \<Longrightarrow>
   currentNum (state p') = currentNum (state p) + int k"
proof (induction k arbitrary: p e rs p' e')
  case 0
  then show ?case by simp
next
  case (Suc k)
  obtain r p1 e1 where a: "Add64 1 p e = (r, p1, e1)" by (cases "Add64 1 p e")
  obtain rs1 p2 e2 where b: "Adds (replicate k 1) p1 e1 = (rs1, p2, e2)"
    by (cases "Adds (replicate k 1) p1 e1")
  from Suc.prems(1) a b have eq: "p' = p2" by simp
  have lt: "currentNum (state p) < max_c (config p)" using Suc.prems(6) by simp
  have "i64 (currentNum (state p) + 1) = currentNum (state p) + 1"
    using Suc.prems(5,6,7) by (intro i64_id) simp_all
  with Add64_below [OF a Suc.prems(3,2) lt Suc.prems(4)]
  have c: "currentNum (state p1) = currentNum (state p) + 1" by simp
  note f = Add64_frame [OF a]
  have "currentNum (state p2) = currentNum (state p1) + int k"
    using Suc.prems f c by (intro Suc.IH [OF b]) simp_all
  with c show ?case by (simp add: eq)
qed

lemma Add64_at_max:
  assumes "Add64 n p e = (r, p', e')" "currentNum (state p) = max_c (config p)"
    "max_c (config p) \<noteq> 0"
  shows "(r = Returned None \<or> r = Returned (Some ErrWrite) \<or> r = Panicked)
         \<and> currentNum (state p') = max_c (config p)"
proof -
  have c: "currentNum (state p') = max_c (config p)"
    using Add64_frame [OF assms(1)] assms(2) by (simp add: count_step_fields)
  from assms(1) have "r = Returned None \<or> r = Returned (Some ErrWrite) \<or> r = Panicked"
  proof (cases rule: Add64_cases)
    case (exceeded u s3)
    from bookkeeping_fields(1) [OF exceeded(3)] assms(2) exceeded(4)
    show ?thesis by (simp add: count_step_fields)
  next
    case (rendered u s3 e1 s4)
    from render_outcome [OF rendered(6)] show ?thesis .
  qed (use assms in auto)
  with c show ?thesis by simp
qed

lemma Adds_at_max:
  "Adds ns p e = (rs, p', e') \<Longrightarrow> currentNum (state p) = max_c (config p) \<Longrightarrow>
   max_c (config p) \<noteq> 0 \<Longrightarrow>
   (\<forall>r \<in> set rs. r = Returned None \<or> r = Returned (Some ErrWrite) \<or> r = Panicked)
   \<and> currentNum (state p') = max_c (config p)"
proof (induction ns arbitrary: p e rs p' e')
  case Nil
  then show ?case by simp
next
  case (Cons n ns)
  obtain r p1 e1 where a: "Add64 n p e = (r, p1, e1)" by (cases "Add64 n p e")
  obtain rs1 p2 e2 where b: "Adds ns p1 e1 = (rs1, p2, e2)" by (cases "Adds ns p1 e1")
  from Cons.prems(1) a b have eq: "rs = r # rs1" "p' = p2" by simp_all
  note s = Add64_at_max [OF a Cons.prems(2,3)]
  note f = Add64_frame [OF a]
  have "(\<forall>r \<in> set rs1. r = Returned None \<or> r = Returned (Some ErrWrite) \<or> r = Panicked)
   \<and> currentNum (state p2) = max_c (config p1)"
    using s f Cons.prems by (intro Cons.IH [OF b]) simp_all
  with s f show ?case by (simp add: eq)
qed

lemma Add64_halted:
  "exit (state p) \<Longrightarrow> Add64 n p e = (Returned None, p, e)"
  by (simp add: Add64_def)

lemma fifty_units:
  assumes "NewOptions64 50 opts e = Some (p0, e0)" "Adds (replicate 50 1) p0 e0 = (rs, p, e1)"
  shows "currentNum (state p) = 50 \<and> max_c (config p) = 50 \<and> \<not> exit (state p)
         \<and> \<not> ignoreLength (config p)"
proof -
  note n = NewOptions64_Some [OF assms(1)]
  have k: "max_c (config p0) = 50" "\<not> ignoreLength (config p0)" "\<not> exit (state p0)"
    "currentNum (state p0) = 0"
    using n by simp_all
  have "currentNum (state p) = currentNum (state p0) + int 50"
    using k by (intro Adds_units [OF assms(2)]) (simp_all add: minInt64_def maxInt64_def)
  with Adds_frame [OF assms(2)] k show ?thesis by simp
qed

text \<open>
  Claim C1, as the code has it.  For a bar of length 50, whatever its options, after 50
  calls of \<open>Add(1)\<close> the counter is 50, and every later call made without a halt leaves
  it at 50 and does not fail with "current number exceeds max": the counter is no
  longer below the maximum, so it is not incremented and never exceeds it.  Such a
  call returns nil, or what a redraw returns (the error of a write, or a panic).  On
  a halted bar a call changes nothing and returns nil.
\<close>

theorem add_after_completion:
  assumes "NewOptions64 50 opts e = Some (p0, e0)"
    and "Adds (replicate 50 1) p0 e0 = (rs, p, e1)"
    and "Adds ns p e1 = (rs', p', e2)"
  shows "currentNum (state p) = 50 \<and> currentNum (state p') = 50
         \<and> (\<forall>r \<in> set rs'. r = Returned None \<or> r = Returned (Some ErrWrite) \<or> r = Panicked)
         \<and> (\<forall>q n e3. exit (state q) \<longrightarrow> Add64 n q e3 = (Returned None, q, e3))"
proof -
  from fifty_units [OF assms(1,2)]
  have k: "currentNum (state p) = 50" "max_c (config p) = 50" by simp_all
  from Adds_at_max [OF assms(3)] k
  have "(\<forall>r \<in> set rs'. r = Returned None \<or> r = Returned (Some ErrWrite) \<or> r = Panicked)
        \<and> currentNum (state p') = 50" by simp
  with k Add64_halted show ?thesis by blast
qed


theorem add_after_completion_witness:
  "NewOptions64 50 [] example_env = Some (fst (plain_bar 50), snd (plain_bar 50))
   \<and> currentNum (state (fst completed_bar)) = 50
   \<and> currentNum (state (fst (snd (Adds [7] (fst completed_bar) (snd completed_bar))))) = 50
   \<and> (hd (fst (Adds [7] (fst completed_bar) (snd completed_bar))) = Returned None
        \<or> hd (fst (Adds [7] (fst completed_bar) (snd completed_bar))) = Returned (Some ErrWrite)
        \<or> hd (fst (Adds [7] (fst completed_bar) (snd completed_bar))) = Panicked)"
proof -
  have new: "NewOptions64 50 [] example_env = Some (fst (plain_bar 50), snd (plain_bar 50))"
    by (rule plain_bar_new) simp_all
  define rs where "rs = fst (Adds (replicate 50 1) (fst (plain_bar 50)) (snd (plain_bar 50)))"
  have a: "Adds (replicate 50 1) (fst (plain_bar 50)) (snd (plain_bar 50))
             = (rs, fst completed_bar, snd completed_bar)"
    by (simp add: rs_def completed_bar_def)
  obtain rs' p' e2 where b: "Adds [7] (fst completed_bar) (snd completed_bar) = (rs', p', e2)"
    by (cases "Adds [7] (fst completed_bar) (snd completed_bar)")
  from Adds_frame [OF b] have "length rs' = 1" by simp
  then have h: "hd rs' \<in> set rs'" by (cases rs') simp_all
  from add_after_completion [OF new a b] h
  have "currentNum (state (fst completed_bar)) = 50 \<and> currentNum (state p') = 50
      \<and> (hd rs' = Returned None \<or> hd rs' = Returned (Some ErrWrite) \<or> hd rs' = Panicked)"
    by blast
  with new b show ?thesis by simp
qed

lemma NewOptions64_nil:
  assumes "NewOptions64 mx [] e = Some (p, e')"
  shows "\<not> showIterationsCount (config p) \<and> \<not> showBytes (config p)
         \<and> throttleDuration (config p) = 0 \<and> onCompletion (config p) = None
         \<and> \<not> fullWidth (config p) \<and> \<not> colorCodes (config p)
         \<and> writer (config p) = os_Stdout e \<and> description (config p) = []
         \<and> theme (config p) = defaultTheme \<and> width (config p) = 40
         \<and> e' = e\<lparr>reads := Suc (reads e)\<rparr> \<and> maxLineWidth (state p) = 0
         \<and> startTime (state p) = clock e (reads e) \<and> lastShown (state p) = clock e (reads e)
         \<and> \<not> finished (state p)"
  using assms
  by (auto simp: NewOptions64_def getBasicState_def Now_def Let_def
           split: if_splits option.splits)

lemma Adds_last_percent:
  assumes "Adds (ns @ [n]) p e = (rs, p', e')" "\<not> exit (state p)" "max_c (config p) \<noteq> 0"
  shows "currentPercent (state p') =
           f64_to_int (f64_mul (f64_div (f64_of_int (currentNum (state p')))
                                        (f64_of_int (max_c (config p)))) (Fin 100))
         \<and> lastPercent (state p') = currentPercent (state p')"
proof -
  obtain rs1 p1 e1 where a: "Adds ns p e = (rs1, p1, e1)" by (cases "Adds ns p e")
  obtain r p2 e2 where b: "Add64 n p1 e1 = (r, p2, e2)" by (cases "Add64 n p1 e1")
  from assms(1) a b have eq: "p' = p2" by (simp add: Adds_append)
  from Adds_frame [OF a] assms(2,3)
  have "\<not> exit (state p1)" "max_c (config p1) \<noteq> 0" "config p1 = config p" by simp_all
  with Add64_percent [OF b] show ?thesis by (simp add: eq)
qed

text \<open>
  Claim C1 as it is worded has every call after the fiftieth fail with the error of a
  counter out of range.  On the bar of length 50 made without options, the fifty-first
  call of \<open>Add(1)\<close> returns nil and the counter stays at 50.
\<close>

theorem add_after_completion_returns_nil:
  "\<not> exit (state (fst completed_bar))
   \<and> fst (Add64 1 (fst completed_bar) (snd completed_bar)) = Returned None
   \<and> currentNum (state (fst (snd (Add64 1 (fst completed_bar) (snd completed_bar))))) = 50"
proof -
  define p0 where "p0 = fst (plain_bar 50)"
  define e0 where "e0 = snd (plain_bar 50)"
  define p where "p = fst completed_bar"
  define e1 where "e1 = snd completed_bar"
  have new: "NewOptions64 50 [] example_env = Some (p0, e0)"
    unfolding p0_def e0_def by (rule plain_bar_new) simp_all
  have a: "Adds (replicate 50 1) p0 e0
             = (fst (Adds (replicate 50 1) p0 e0), p, e1)"
    by (simp add: p_def e1_def completed_bar_def p0_def e0_def)
  from fifty_units [OF new a]
  have k: "currentNum (state p) = 50" "max_c (config p) = 50" "\<not> exit (state p)" by simp_all
  note n = NewOptions64_Some [OF new] and nn = NewOptions64_nil [OF new]
  have c: "config p = config p0" using Adds_frame [OF a] by simp
  have "replicate (Suc 49) (1::int) = replicate 49 1 @ [1]"
    by (simp only: replicate_Suc replicate_append_same)
  moreover have "(50::nat) = Suc 49" by simp
  ultimately have "replicate 50 (1::int) = replicate 49 1 @ [1]" by (simp only:)
  with a have "Adds (replicate 49 1 @ [1]) p0 e0 = (fst (Adds (replicate 50 1) p0 e0), p, e1)"
    by simp
  from Adds_last_percent [OF this] n
  have "lastPercent (state p) =
     f64_to_int (f64_mul (f64_div (f64_of_int (currentNum (state p)))
                                        (f64_of_int (max_c (config p0)))) (Fin 100))"
    by simp
  also have "\<dots> = 100" using percent_full [of 50] k c by simp
  finally have lp: "lastPercent (state p) = 100" .
  obtain r p' e' where b: "Add64 1 p e1 = (r, p', e')" by (cases "Add64 1 p e1")
  have cn: "currentNum (state p') = 50"
    using Add64_at_max [OF b] k by simp
  from b have "r = Returned None"
  proof (cases rule: Add64_cases)
    case (exceeded u s3)
    from bookkeeping_fields(1) [OF exceeded(3)] k exceeded(4)
    show ?thesis by (simp add: count_step_fields)
  next
    case (rendered u s3 e1' s4)
    note bf = bookkeeping_fields [OF rendered(3)]
    have "currentNum s3 = 50" using bf(1) k by (simp add: count_step_fields)
    then have "currentPercent s3 = 100" using bf(9) k percent_full [of 50] by simp
    with bf(11) lp have "\<not> u" by simp
    with rendered(5) nn c show ?thesis by simp
  qed (use k in auto)
  with b cn k show ?thesis
    unfolding p_def [symmetric] e1_def [symmetric] by simp
qed



section \<open>Bars of unknown length\<close>


lemma rem_bounds: "0 < b \<Longrightarrow> - b < rem a b \<and> rem a b < b"
proof -
  assume b: "0 < b"
  define m where "m = \<bar>a\<bar> mod \<bar>b\<bar>"
  have m: "0 \<le> m" "m < b" using b by (simp_all add: m_def)
  have "rem a b = m \<or> rem a b = 0 \<or> rem a b = - m"
    by (cases "a = 0"; cases "0 \<le> a") (simp_all add: rem_def m_def)
  with m b show ?thesis by linarith
qed

lemma rem_nonneg: "0 \<le> a \<Longrightarrow> 0 < b \<Longrightarrow> rem a b = a mod b"
  by (cases "a = 0") (simp_all add: rem_def)

lemma Add64_wrap:
  assumes "Add64 n p e = (r, p', e')" "\<not> exit (state p)" "ignoreLength (config p)"
    "0 < max_c (config p)" "currentNum (state p) < max_c (config p)"
  shows "currentNum (state p') = rem (i64 (currentNum (state p) + n)) (max_c (config p))"
    and "- max_c (config p) < currentNum (state p')"
    and "currentNum (state p') < max_c (config p)"
proof -
  show c: "currentNum (state p') = rem (i64 (currentNum (state p) + n)) (max_c (config p))"
    using Add64_frame [OF assms(1)] assms(2-5) by (simp add: count_step_fields)
  from rem_bounds [OF assms(4), of "i64 (currentNum (state p) + n)"] c
  show "- max_c (config p) < currentNum (state p')" "currentNum (state p') < max_c (config p)"
    by simp_all
qed

lemma Adds_wrap_bounds:
  "Adds ns p e = (rs, p', e') \<Longrightarrow> \<not> exit (state p) \<Longrightarrow> ignoreLength (config p) \<Longrightarrow>
   0 < max_c (config p) \<Longrightarrow> currentNum (state p) < max_c (config p) \<Longrightarrow>
   - max_c (config p) < currentNum (state p) \<Longrightarrow>
   - max_c (config p) < currentNum (state p') \<and> currentNum (state p') < max_c (config p)"
proof (induction ns arbitrary: p e rs p' e')
  case Nil
  then show ?case by simp
next
  case (Cons n ns)
  obtain r p1 e1 where a: "Add64 n p e = (r, p1, e1)" by (cases "Add64 n p e")
  obtain rs1 p2 e2 where b: "Adds ns p1 e1 = (rs1, p2, e2)" by (cases "Adds ns p1 e1")
  from Cons.prems(1) a b have eq: "p' = p2" by simp
  note w = Add64_wrap [OF a Cons.prems(2,3,4,5)]
  note f = Add64_frame [OF a]
  have "- max_c (config p1) < currentNum (state p2) \<and> currentNum (state p2) < max_c (config p1)"
    using Cons.prems w f by (intro Cons.IH [OF b]) simp_all
  with f show ?case by (simp add: eq)
qed

lemma Adds_wrap_units:
  "Adds (replicate k 1) p e = (rs, p', e') \<Longrightarrow> \<not> exit (state p) \<Longrightarrow>
   ignoreLength (config p) \<Longrightarrow> 0 < max_c (config p) \<Longrightarrow> max_c (config p) \<le> maxInt64 \<Longrightarrow>
   0 \<le> currentNum (state p) \<Longrightarrow> currentNum (state p) < max_c (config p) \<Longrightarrow>
   currentNum (state p') = (currentNum (state p) + int k) mod max_c (config p)"
proof (induction k arbitrary: p e rs p' e')
  case 0
  then show ?case by simp
next
  case (Suc k)
  obtain r p1 e1 where a: "Add64 1 p e = (r, p1, e1)" by (cases "Add64 1 p e")
  obtain rs1 p2 e2 where b: "Adds (replicate k 1) p1 e1 = (rs1, p2, e2)"
    by (cases "Adds (replicate k 1) p1 e1")
  from Suc.prems(1) a b have eq: "p' = p2" by simp
  have "i64 (currentNum (state p) + 1) = currentNum (state p) + 1"
    using Suc.prems by (intro i64_id) (simp_all add: minInt64_def)
  with Add64_wrap(1) [OF a Suc.prems(2,3,4,7)] Suc.prems(4,6)
  have c: "currentNum (state p1) = (currentNum (state p) + 1) mod max_c (config p)"
    by (simp add: rem_nonneg)
  note f = Add64_frame [OF a]
  have cf: "config p1 = config p" "\<not> exit (state p1)" using f Suc.prems(2) by simp_all
  have b0: "0 \<le> currentNum (state p1)" "currentNum (state p1) < max_c (config p1)"
    using c Suc.prems(4) by (simp_all add: cf)
  have "currentNum (state p2) = (currentNum (state p1) + int k) mod max_c (config p1)"
    using Suc.prems(3,4,5) by (intro Suc.IH [OF b cf(2) _ _ _ b0]) (simp_all add: cf)
  also have "(currentNum (state p1) + int k) mod max_c (config p1)
      = (currentNum (state p) + 1 + int k) mod max_c (config p)"
    by (simp add: c cf mod_simps)
  also have "currentNum (state p) + 1 + int k = currentNum (state p) + int (Suc k)" by simp
  finally show ?case by (simp only: eq)
qed


lemma spinner_bar_new:
  assumes "0 \<le> w" "w < 2 ^ 53"
  shows "NewOptions64 (- 1) [OptionSetWidth w] example_env
           = Some (fst (spinner_bar w), snd (spinner_bar w))"
    and "width (config (fst (spinner_bar w))) = w"
proof -
  have f: "f64_of_int w = Fin (of_int w)" using assms by (intro f64_of_int_exact) auto
  have "(of_int w :: rat) < of_int (2 ^ 53)" using assms by (simp only: of_int_less_iff)
  then have "(of_int w :: rat) < 1024 ^ 7" by simp
  then obtain h sfx where h: "humanizeBytes example_Log (Fin (of_int w)) = Some (h, sfx)"
    using humanizeBytes_total by blast
  have "\<exists>p e'. NewOptions64 (- 1) [OptionSetWidth w] example_env = Some (p, e')
           \<and> width (config p) = w"
    by (simp add: NewOptions64_def getBasicState_def Now_def Let_def f h example_env_Log)
  then show "NewOptions64 (- 1) [OptionSetWidth w] example_env
           = Some (fst (spinner_bar w), snd (spinner_bar w))"
    and "width (config (fst (spinner_bar w))) = w"
    by (auto simp: spinner_bar_def)
qed

text \<open>
  Claim C6, as the code has it.  A bar made with the maximum \<open>-1\<close> is of unknown length
  and its maximum is the width.  When the width is at least 2: every call of \<open>Add64\<close>
  leaves the counter at the remainder of (counter + delta) by the maximum, which is at
  most the maximum less one; after \<open>k\<close> calls of \<open>Add64 1\<close> from the start the counter
  is \<open>k mod max\<close>; after \<open>max + 1\<close> of them it is 1.
\<close>

theorem unknown_length_wraps:
  assumes "NewOptions64 (- 1) opts e = Some (p0, e0)"
    and "2 \<le> width (config p0)" and "width (config p0) \<le> maxInt64"
  shows "ignoreLength (config p0) \<and> max_c (config p0) = width (config p0)
     \<and> (\<forall>ns rs p e1 n r p' e'. Adds ns p0 e0 = (rs, p, e1) \<and> Add64 n p e1 = (r, p', e')
           \<longrightarrow> currentNum (state p') = rem (i64 (currentNum (state p) + n)) (max_c (config p0))
               \<and> currentNum (state p') \<le> max_c (config p0) - 1)
     \<and> (\<forall>k rs p e1. Adds (replicate k 1) p0 e0 = (rs, p, e1)
           \<longrightarrow> currentNum (state p) = int k mod max_c (config p0))
     \<and> (\<forall>rs p e1. Adds (replicate (nat (max_c (config p0)) + 1) 1) p0 e0 = (rs, p, e1)
           \<longrightarrow> currentNum (state p) = 1)"
proof -
  note n = NewOptions64_Some [OF assms(1)]
  have k: "ignoreLength (config p0)" "max_c (config p0) = width (config p0)"
    "\<not> exit (state p0)" "currentNum (state p0) = 0" "0 < max_c (config p0)"
    "max_c (config p0) \<le> maxInt64"
    using n assms(2,3) by simp_all
  have step: "currentNum (state p') = rem (i64 (currentNum (state p) + n)) (max_c (config p0))
               \<and> currentNum (state p') \<le> max_c (config p0) - 1"
    if "Adds ns p0 e0 = (rs, p, e1)" "Add64 n p e1 = (r, p', e')" for ns rs p e1 n r p' e'
  proof -
    note f = Adds_frame [OF that(1)]
    have b: "- max_c (config p0) < currentNum (state p) \<and> currentNum (state p) < max_c (config p0)"
      using k by (intro Adds_wrap_bounds [OF that(1)]) simp_all
    have c: "config p = config p0" "\<not> exit (state p)" using f k by simp_all
    from Add64_wrap [OF that(2)] c k b show ?thesis by simp
  qed
  have units: "currentNum (state p) = int k mod max_c (config p0)"
    if "Adds (replicate k 1) p0 e0 = (rs, p, e1)" for k rs p e1
    using Adds_wrap_units [OF that] k by simp
  have "int (nat (max_c (config p0)) + 1) mod max_c (config p0) = 1"
    using k assms(2) by simp
  with units have last: "currentNum (state p) = 1"
    if "Adds (replicate (nat (max_c (config p0)) + 1) 1) p0 e0 = (rs, p, e1)" for rs p e1
    using that by metis
  from k step units last show ?thesis by blast
qed

theorem unknown_length_wraps_witness:
  "NewOptions64 (- 1) [OptionSetWidth 3] example_env = Some (fst (spinner_bar 3), snd (spinner_bar 3))
   \<and> 2 \<le> width (config (fst (spinner_bar 3)))
   \<and> width (config (fst (spinner_bar 3))) \<le> maxInt64
   \<and> max_c (config (fst (spinner_bar 3))) = 3
   \<and> currentNum (state (fst (snd (Adds (replicate 4 1) (fst (spinner_bar 3)) (snd (spinner_bar 3))))))
       = 1"
proof -
  have new: "NewOptions64 (- 1) [OptionSetWidth 3] example_env
               = Some (fst (spinner_bar 3), snd (spinner_bar 3))"
    and w: "width (config (fst (spinner_bar 3))) = 3"
    by (rule spinner_bar_new; simp)+
  have h: "2 \<le> width (config (fst (spinner_bar 3)))"
    "width (config (fst (spinner_bar 3))) \<le> maxInt64"
    by (simp_all add: w maxInt64_def)
  note t = unknown_length_wraps [OF new h]
  from t have m: "max_c (config (fst (spinner_bar 3))) = 3" by (simp add: w)
  have "nat (max_c (config (fst (spinner_bar 3)))) + 1 = 4" by (simp add: m)
  with t have "currentNum (state (fst (snd (Adds (replicate 4 1) (fst (spinner_bar 3))
                  (snd (spinner_bar 3)))))) = 1"
    by (metis prod.collapse)
  with new h m show ?thesis by simp
qed

text \<open>
  Claim C6 as it is worded holds for every width.  With the width 1 the maximum is 1,
  every remainder is 0, and after \<open>max + 1 = 2\<close> calls of \<open>Add64 1\<close> the counter is 0.
\<close>

theorem unit_width_wraps_to_zero:
  "NewOptions64 (- 1) [OptionSetWidth 1] example_env = Some (fst (spinner_bar 1), snd (spinner_bar 1))
   \<and> max_c (config (fst (spinner_bar 1))) = 1
   \<and> currentNum (state (fst (snd (Adds (replicate 2 1) (fst (spinner_bar 1)) (snd (spinner_bar 1))))))
       = 0"
proof -
  have new: "NewOptions64 (- 1) [OptionSetWidth 1] example_env
               = Some (fst (spinner_bar 1), snd (spinner_bar 1))"
    and w: "width (config (fst (spinner_bar 1))) = 1"
    by (rule spinner_bar_new; simp)+
  note n = NewOptions64_Some [OF new]
  have k: "ignoreLength (config (fst (spinner_bar 1)))" "max_c (config (fst (spinner_bar 1))) = 1"
    "\<not> exit (state (fst (spinner_bar 1)))" "currentNum (state (fst (spinner_bar 1))) = 0"
    using n w by simp_all
  obtain rs p e1 where a: "Adds (replicate 2 1) (fst (spinner_bar 1)) (snd (spinner_bar 1)) = (rs, p, e1)"
    by (cases "Adds (replicate 2 1) (fst (spinner_bar 1)) (snd (spinner_bar 1))")
  have "currentNum (state p) = (currentNum (state (fst (spinner_bar 1))) + int 2)
          mod max_c (config (fst (spinner_bar 1)))"
    using k by (intro Adds_wrap_units [OF a]) (simp_all add: maxInt64_def)
  then have "currentNum (state p) = 0" using k by simp
  with new k a show ?thesis by simp
qed



section \<open>The rolling window of rates\<close>


lemma rate_step_window:
  assumes "rate_step n s e = (s', e')"
  shows "(f64_less (Fin (1 / 2)) (Seconds (Sub (clock e (reads e)) (counterTime s))) \<longrightarrow>
           counterLastTenRates s' =
             (let rates = counterLastTenRates s
                    @ [f64_div (f64_of_int (i64 (counterNumSinceLast s + n)))
                               (Seconds (Sub (clock e (Suc (reads e))) (counterTime s)))]
              in if 10 < length rates then tl rates else rates)
           \<and> counterNumSinceLast s' = 0
           \<and> counterTime s' = clock e (Suc (Suc (reads e))))
       \<and> (\<not> f64_less (Fin (1 / 2)) (Seconds (Sub (clock e (reads e)) (counterTime s))) \<longrightarrow>
           counterLastTenRates s' = counterLastTenRates s
           \<and> counterNumSinceLast s' = i64 (counterNumSinceLast s + n)
           \<and> counterTime s' = counterTime s)"
  using assms unfolding rate_step_def
  by (auto simp: Let_def Since_def Now_def split: prod.splits if_splits)

lemma Add64_window:
  assumes "Add64 n p e = (r, p', e')" "\<not> exit (state p)" "max_c (config p) \<noteq> 0"
  shows "\<exists>s2 e2. rate_step n (count_step n (config p) (state p)) e = (s2, e2)
           \<and> counterLastTenRates (state p') = counterLastTenRates s2
           \<and> counterNumSinceLast (state p') = counterNumSinceLast s2
           \<and> counterTime (state p') = counterTime s2"
proof -
  obtain s2 e2 where rs: "rate_step n (count_step n (config p) (state p)) e = (s2, e2)"
    by (cases "rate_step n (count_step n (config p) (state p)) e")
  obtain u s3 where ps: "percent_step (config p) s2 = (u, s3)"
    by (cases "percent_step (config p) s2")
  have bk: "bookkeeping n (config p) (state p) e = (u, s3, e2)"
    by (simp add: bookkeeping_def rs ps)
  note pf = percent_step_fields [OF ps]
  have "counterLastTenRates (state p') = counterLastTenRates s3
           \<and> counterNumSinceLast (state p') = counterNumSinceLast s3
           \<and> counterTime (state p') = counterTime s3"
    using assms(1)
  proof (cases rule: Add64_cases)
    case (exceeded u' s3')
    with bk show ?thesis by simp
  next
    case (rendered u' s3' e1 s4)
    from render_frame [OF rendered(6)] have "kept s4 = kept s3'" by simp
    note kf = kept_fields [OF this]
    with rendered(3,7) bk show ?thesis by simp
  next
    case (quiet u' s3')
    with bk show ?thesis by simp
  qed (use assms in auto)
  with rs pf show ?thesis by simp
qed

lemma tracker_rates: "tracker p \<Longrightarrow> length (counterLastTenRates (state p)) \<le> 10"
proof (induction rule: tracker.induct)
  case (new mx opts e p e')
  from NewOptions64_Some [OF new] show ?case by simp
next
  case (add p n e r p' e')
  show ?case
  proof (cases "exit (state p) \<or> max_c (config p) = 0")
    case True
    from add(2) have "p' = p"
      by (cases rule: Add64_cases) (use True in auto)
    with add(3) show ?thesis by simp
  next
    case False
    with Add64_window [OF add(2)] obtain s2 e2
      where s2: "rate_step n (count_step n (config p) (state p)) e = (s2, e2)"
        and eq: "counterLastTenRates (state p') = counterLastTenRates s2"
      by auto
    from rate_step_window [OF s2] add(3)
    have "length (counterLastTenRates s2) \<le> 10"
      by (cases "f64_less (Fin (1 / 2)) (Seconds (Sub (clock e (reads e))
                   (counterTime (count_step n (config p) (state p)))))")
         (auto simp: count_step_fields Let_def)
    with eq show ?thesis by simp
  qed
next
  case (halt p)
  then show ?case by simp
qed

text \<open>
  Claim C8.  In a call of \<open>Add64\<close> that gets past the tests of the halt and of the
  maximum, the delta is added to the counter of the window.  When the time since the
  start of the window, at the first reading of the clock, exceeds half a second, the
  counter of the window divided by the seconds since the start of the window (at the
  next reading) is appended to the rates, the first of the rates is dropped if they
  are now more than 10, the counter of the window becomes 0 and the window starts at
  the third reading.  Otherwise the rates and the start of the window stay.  A list of
  10 rates loses its oldest entry to a new one, and no bar a program holds has more
  than 10 rates.
\<close>

theorem rolling_rates:
  assumes "Add64 n p e = (r, p', e')" "\<not> exit (state p)" "max_c (config p) \<noteq> 0"
  shows "(f64_less (Fin (1 / 2)) (Seconds (Sub (clock e (reads e)) (counterTime (state p)))) \<longrightarrow>
           counterLastTenRates (state p') =
             (let rates = counterLastTenRates (state p)
                    @ [f64_div (f64_of_int (i64 (counterNumSinceLast (state p) + n)))
                               (Seconds (Sub (clock e (Suc (reads e))) (counterTime (state p))))]
              in if 10 < length rates then tl rates else rates)
           \<and> counterNumSinceLast (state p') = 0
           \<and> counterTime (state p') = clock e (Suc (Suc (reads e)))
           \<and> (length (counterLastTenRates (state p)) = 10 \<longrightarrow>
                counterLastTenRates (state p') =
                  tl (counterLastTenRates (state p))
                  @ [f64_div (f64_of_int (i64 (counterNumSinceLast (state p) + n)))
                             (Seconds (Sub (clock e (Suc (reads e))) (counterTime (state p))))]))
       \<and> (\<not> f64_less (Fin (1 / 2)) (Seconds (Sub (clock e (reads e)) (counterTime (state p)))) \<longrightarrow>
           counterLastTenRates (state p') = counterLastTenRates (state p)
           \<and> counterNumSinceLast (state p') = i64 (counterNumSinceLast (state p) + n)
           \<and> counterTime (state p') = counterTime (state p))
       \<and> (length (counterLastTenRates (state p)) \<le> 10
            \<longrightarrow> length (counterLastTenRates (state p')) \<le> 10)
       \<and> (\<forall>q. tracker q \<longrightarrow> length (counterLastTenRates (state q)) \<le> 10)"
proof -
  from Add64_window [OF assms] obtain s2 e2
    where s2: "rate_step n (count_step n (config p) (state p)) e = (s2, e2)"
      and eq: "counterLastTenRates (state p') = counterLastTenRates s2"
        "counterNumSinceLast (state p') = counterNumSinceLast s2"
        "counterTime (state p') = counterTime s2"
    by auto
  note w = rate_step_window [OF s2, unfolded count_step_fields]
  show ?thesis
  proof (cases "f64_less (Fin (1 / 2)) (Seconds (Sub (clock e (reads e)) (counterTime (state p))))")
    case True
    with w eq tracker_rates show ?thesis
      by (cases "counterLastTenRates (state p)") (auto simp: Let_def)
  next
    case False
    with w eq tracker_rates show ?thesis by auto
  qed
qed

lemma NewOptions64_window:
  assumes "NewOptions64 mx [] e = Some (p, e')"
  shows "counterTime (state p) = clock e (reads e)"
  using assms
  by (auto simp: NewOptions64_def getBasicState_def Now_def Let_def
           split: if_splits option.splits)

lemma slow_bar_new:
  "NewOptions64 10 [] slow_env = Some (fst slow_bar, snd slow_bar)"
  using NewOptions64_plain [of 10 slow_env] by (auto simp: slow_bar_def example_env_Log)

lemma Seconds_whole:
  assumes "0 < k" "k \<le> 2 ^ 53"
  shows "Seconds (k * 1000000000) = Fin (of_int k)"
proof -
  have "f64_of_int k = Fin (of_int k)" using assms by (intro f64_of_int_exact) auto
  moreover have "f64_round (of_int k) = Fin (of_int k)"
    using calculation by (simp add: f64_of_int_def)
  ultimately show ?thesis
    using assms by (simp add: Seconds_def quot_def rem_def f64_of_int_def)
qed

theorem rolling_rates_witness:
  "(case Add64 1 (fst slow_bar) (snd slow_bar) of
      (r, p', e') \<Rightarrow> counterLastTenRates (state p') = [Fin (1 / 2)]
                    \<and> counterNumSinceLast (state p') = 0
                    \<and> counterTime (state p') = 3000000000)"
proof -
  obtain r p' e' where a: "Add64 1 (fst slow_bar) (snd slow_bar) = (r, p', e')"
    by (cases "Add64 1 (fst slow_bar) (snd slow_bar)")
  note n = NewOptions64_Some [OF slow_bar_new] NewOptions64_nil [OF slow_bar_new]
    NewOptions64_window [OF slow_bar_new]
  have e: "clock (snd slow_bar) = (\<lambda>n. int n * 1000000000)" "reads (snd slow_bar) = 1"
    "counterTime (state (fst slow_bar)) = 0"
    using n by (simp_all add: slow_env_def example_env_def)
  have s: "Seconds 1000000000 = Fin 1" "Seconds 2000000000 = Fin 2"
    using Seconds_whole [of 1] Seconds_whole [of 2] by simp_all
  have i: "i64 1 = 1" by (rule i64_id) (simp_all add: minInt64_def maxInt64_def)
  have f: "f64_of_int 1 = Fin 1" using f64_of_int_exact [of 1] by simp
  have m: "max_c (config (fst slow_bar)) \<noteq> 0" "\<not> exit (state (fst slow_bar))"
    "counterNumSinceLast (state (fst slow_bar)) = 0"
    "counterLastTenRates (state (fst slow_bar)) = []"
    using n by simp_all
  have h: "f64_round (1 / 2) = Fin (1 / 2)" using f64_round_half [of 1] by simp
  from rolling_rates [OF a m(2) m(1)] show ?thesis
    by (simp add: a e m s i f h Sub_def minInt64_def maxInt64_def)
qed



section \<open>A maximum that is not positive\<close>


lemma Add64_invalid:
  assumes "Add64 n p e = (r, p', e')" "\<not> exit (state p)" "max_c (config p) = 0"
  shows "r = Returned (Some ErrMaxZero) \<and> p' = p \<and> e' = e"
  using assms(1) by (cases rule: Add64_cases) (use assms(2,3) in auto)

text \<open>
  Claim C2.  \<open>Add64\<close> tests the maximum with \<open>max == 0\<close>, and the error it returns
  there reads "max must be greater than 0".  A bar made with a maximum of 0 is turned
  down with that error and nothing changes.  A bar made with a maximum below 0 other
  than -1 is not: the first call of \<open>Add64\<close> on it goes through the bookkeeping, so the
  delta is added to the byte total and to the window of the rates, and the call
  returns "current number exceeds max", with the counter still 0.
\<close>

theorem max_below_zero_passes_the_test:
  assumes "NewOptions64 mx opts e = Some (p, e0)" "mx \<noteq> - 1" "Add64 n p e0 = (r, p', e')"
  shows "(mx = 0 \<longrightarrow> r = Returned (Some ErrMaxZero) \<and> p' = p \<and> e' = e0)
       \<and> (mx < 0 \<longrightarrow>
            r = Returned (Some ErrExceedsMax) \<and> currentNum (state p') = 0
            \<and> currentBytes (state p') = f64_add (Fin 0) (f64_of_int n)
            \<and> counterLastTenRates (state p') =
                (if f64_less (Fin (1 / 2)) (Seconds (Sub (clock e0 (reads e0)) (counterTime (state p))))
                 then [f64_div (f64_of_int (i64 n))
                         (Seconds (Sub (clock e0 (Suc (reads e0))) (counterTime (state p))))]
                 else [])
            \<and> counterNumSinceLast (state p') =
                (if f64_less (Fin (1 / 2)) (Seconds (Sub (clock e0 (reads e0)) (counterTime (state p))))
                 then 0 else i64 n))"
proof -
  note n = NewOptions64_Some [OF assms(1)]
  have c: "max_c (config p) = mx" "\<not> exit (state p)" "currentNum (state p) = 0"
    "currentBytes (state p) = Fin 0" "counterNumSinceLast (state p) = 0"
    "counterLastTenRates (state p) = []"
    using n assms(2) by simp_all
  show ?thesis
  proof (cases "mx = 0")
    case True
    with Add64_invalid [OF assms(3)] c show ?thesis by simp
  next
    case False
    show ?thesis
    proof (cases "mx < 0")
      case True
      from Add64_window [OF assms(3)] c False obtain s2 e2
        where s2: "rate_step n (count_step n (config p) (state p)) e0 = (s2, e2)"
          and eq: "counterLastTenRates (state p') = counterLastTenRates s2"
            "counterNumSinceLast (state p') = counterNumSinceLast s2"
        by auto
      note w = rate_step_window [OF s2, unfolded count_step_fields]
      from Add64_beyond [OF assms(3)] c True
      have "r = Returned (Some ErrExceedsMax) \<and> currentNum (state p') = 0
            \<and> currentBytes (state p') = f64_add (Fin 0) (f64_of_int n)"
        by simp
      with w eq c True show ?thesis by (simp add: Let_def)
    next
      case False
      with \<open>mx \<noteq> 0\<close> show ?thesis by simp
    qed
  qed
qed

theorem max_below_zero_passes_the_test_witness:
  "(case NewOptions64 (- 5) [] slow_env of
      None \<Rightarrow> False
    | Some (p, e0) \<Rightarrow>
        (case Add64 1 p e0 of
           (r, p', e') \<Rightarrow> r = Returned (Some ErrExceedsMax) \<and> currentNum (state p') = 0
                         \<and> currentBytes (state p) = Fin 0 \<and> currentBytes (state p') = Fin 1
                         \<and> counterLastTenRates (state p) = []
                         \<and> counterLastTenRates (state p') = [Fin (1 / 2)]))"
proof -
  obtain p e0 where new: "NewOptions64 (- 5) [] slow_env = Some (p, e0)"
    using NewOptions64_negative [of "- 5" slow_env] by auto
  obtain r p' e' where a: "Add64 1 p e0 = (r, p', e')" by (cases "Add64 1 p e0")
  note n = NewOptions64_Some [OF new] NewOptions64_nil [OF new] NewOptions64_window [OF new]
  have e: "clock e0 = (\<lambda>n. int n * 1000000000)" "reads e0 = 1" "counterTime (state p) = 0"
    "currentBytes (state p) = Fin 0" "counterLastTenRates (state p) = []"
    using n by (simp_all add: slow_env_def example_env_def)
  have s: "Seconds 1000000000 = Fin 1" "Seconds 2000000000 = Fin 2"
    using Seconds_whole [of 1] Seconds_whole [of 2] by simp_all
  have i: "i64 1 = 1" by (rule i64_id) (simp_all add: minInt64_def maxInt64_def)
  have f: "f64_of_int 1 = Fin 1" using f64_of_int_exact [of 1] by simp
  have h: "f64_round (1 / 2) = Fin (1 / 2)" using f64_round_half [of 1] by simp
  from max_below_zero_passes_the_test [OF new _ a] show ?thesis
    by (simp add: new a e s i f h f64_round_1 Sub_def minInt64_def maxInt64_def)
qed



section \<open>When a call redraws\<close>


lemma f64_round_256th: "f64_round (1 / 256) = Fin (1 / 256)"
proof -
  define x :: rat where "x = 1 / 256"
  have fe: "fexp x = - 8"
    by (rule fexp_eqI) (simp_all add: pow2_def x_def)
  have "x / pow2 (fexp x - 52) = of_int (2 ^ 52)"
    unfolding fe by (simp add: pow2_def x_def)
  moreover have "0 < x" by (simp add: x_def)
  moreover have "x < pow2 1023" by (rule lt_pow2_1023) (simp add: x_def)
  ultimately have "f64_round x = Fin x" by (intro f64_round_exact) auto
  then show ?thesis by (simp add: x_def)
qed

lemma percent_zero:
  assumes "0 \<le> k" "256 * k \<le> m" "0 < m" "m \<le> 2 ^ 53"
  shows "f64_to_int (f64_mul (f64_div (f64_of_int k) (f64_of_int m)) (Fin 100)) = 0"
proof -
  have k53: "k \<le> 2 ^ 53" using assms by simp
  have fk: "f64_of_int k = Fin (of_int k)" using assms k53 by (intro f64_of_int_exact) auto
  have fm: "f64_of_int m = Fin (of_int m)" using assms by (intro f64_of_int_exact) auto
  have m0: "(of_int m :: rat) \<noteq> 0" "0 < (of_int m :: rat)" using assms by simp_all
  define x :: rat where "x = of_int k / of_int m"
  have d: "f64_div (f64_of_int k) (f64_of_int m) = f64_round x"
    using m0 by (simp add: fk fm x_def)
  have "f64_to_int (f64_mul (f64_round x) (Fin 100)) = 0"
  proof (cases "k = 0")
    case True
    then show ?thesis by (simp add: x_def minInt64_def maxInt64_def)
  next
    case False
    have x0: "0 < x" using False assms m0 by (simp add: x_def)
    have "(of_int (256 * k) :: rat) \<le> of_int m" using assms(2) by (simp only: of_int_le_iff)
    then have "256 * (of_int k :: rat) \<le> of_int m" by simp
    then have xu: "x \<le> 1 / 256" using m0 by (simp add: x_def field_simps)
    then have "x \<le> 100" by simp
    from f64_round_finite_pos [OF x0 lt_pow2_1023 [OF this]]
    obtain p where p: "f64_round x = Fin p" "0 \<le> p" by blast
    have pu: "p \<le> 1 / 256"
      using f64_round_mono_pos [OF x0 xu p(1) f64_round_256th] .
    show ?thesis
    proof (cases "p = 0")
      case True
      then show ?thesis by (simp add: p(1) minInt64_def maxInt64_def)
    next
      case False
      with p have y0: "0 < p * 100" by simp
      have yu: "p * 100 \<le> 1 / 2" using pu by simp
      then have "p * 100 \<le> 100" by simp
      from f64_round_finite_pos [OF y0 lt_pow2_1023 [OF this]]
      obtain z where z: "f64_round (p * 100) = Fin z" "0 \<le> z" by blast
      have h: "f64_round (1 / 2) = Fin (1 / 2)" using f64_round_half [of 1] by simp
      have zu: "z \<le> 1 / 2"
        using f64_round_mono_pos [OF y0 yu z(1) h] .
      then have "z < 1" by simp
      with z have "\<lfloor>z\<rfloor> = 0" by (simp add: floor_eq_iff)
      then show ?thesis
        using z by (simp add: p(1) minInt64_def maxInt64_def)
    qed
  qed
  with d show ?thesis by simp
qed

lemma NewOptions64_bytes:
  assumes "0 \<le> mx" "mx < 2 ^ 53" "math_Log e = example_Log"
  shows "\<exists>p. NewOptions64 mx [OptionShowBytes True] e = Some (p, e\<lparr>reads := Suc (reads e)\<rparr>)
             \<and> showBytes (config p) \<and> \<not> showIterationsCount (config p)
             \<and> rendered (state p) = []"
proof -
  have f: "f64_of_int mx = Fin (of_int mx)" using assms by (intro f64_of_int_exact) auto
  have "(of_int mx :: rat) < of_int (2 ^ 53)" using assms by (simp only: of_int_less_iff)
  then have "(of_int mx :: rat) < 1024 ^ 7" by simp
  then obtain h sfx where "humanizeBytes example_Log (Fin (of_int mx)) = Some (h, sfx)"
    using humanizeBytes_total by blast
  then show ?thesis
    using assms(1,3) by (simp add: NewOptions64_def getBasicState_def Now_def Let_def f)
qed

text \<open>
  Claim C4.  A call of \<open>Add64\<close> that gets past the tests of the halt and of the maximum
  goes on to \<open>render\<close> exactly when the counter is not beyond the maximum and either
  the percentage differs from the one the call before left and is above 0, or the
  count of iterations is shown.  Otherwise nothing is written and the line, its width
  and the time of the last drawing stay as they were.  Whether bytes are shown has no
  part in this, although the comment on the test reads "always update if show
  bytes/second or its/second".
\<close>

theorem redraw_test_ignores_bytes:
  assumes "Add64 n p e = (r, p', e')" "\<not> exit (state p)" "max_c (config p) \<noteq> 0"
  shows "(currentNum (state p') \<le> max_c (config p)
          \<and> (currentPercent (state p') \<noteq> lastPercent (state p) \<and> 0 < currentPercent (state p')
              \<or> showIterationsCount (config p))
          \<longrightarrow> (\<exists>u s3 e1. bookkeeping n (config p) (state p) e = (u, s3, e1)
                \<and> render (config p) s3 e1 = (r, state p', e')))
       \<and> (\<not> (currentNum (state p') \<le> max_c (config p)
              \<and> (currentPercent (state p') \<noteq> lastPercent (state p) \<and> 0 < currentPercent (state p')
                  \<or> showIterationsCount (config p)))
          \<longrightarrow> written e' = written e \<and> rendered (state p') = rendered (state p)
              \<and> maxLineWidth (state p') = maxLineWidth (state p)
              \<and> lastShown (state p') = lastShown (state p)
              \<and> finished (state p') = finished (state p) \<and> called e' = called e
              \<and> (\<exists>u. bookkeeping n (config p) (state p) e = (u, state p', e')))"
  using assms(1)
proof (cases rule: Add64_cases)
  case (exceeded u s3)
  with bookkeeping_fields [OF exceeded(3)] show ?thesis by auto
next
  case (rendered u s3 e1 s4)
  from render_frame [OF rendered(6)] have "kept s4 = kept s3" by simp
  note kf = kept_fields [OF this]
  with bookkeeping_fields [OF rendered(3)] rendered show ?thesis by auto
next
  case (quiet u s3)
  with bookkeeping_fields [OF quiet(3)] show ?thesis by auto
qed (use assms in auto)

theorem redraw_test_ignores_bytes_witness:
  "(case NewOptions64 1000 [OptionShowBytes True] slow_env of
      None \<Rightarrow> False
    | Some (p, e0) \<Rightarrow>
        (case Add64 1 p e0 of
           (r, p', e') \<Rightarrow> showBytes (config p) \<and> r = Returned None \<and> currentNum (state p') = 1
                         \<and> currentPercent (state p') = 0
                         \<and> written e' = [] \<and> rendered (state p') = []))"
proof -
  obtain p where new: "NewOptions64 1000 [OptionShowBytes True] slow_env
                         = Some (p, slow_env\<lparr>reads := Suc (reads slow_env)\<rparr>)"
    and c: "showBytes (config p)" "\<not> showIterationsCount (config p)" "rendered (state p) = []"
    using NewOptions64_bytes [of 1000 slow_env] by (auto simp: example_env_Log)
  define e0 where "e0 = slow_env\<lparr>reads := Suc (reads slow_env)\<rparr>"
  obtain r p' e' where a: "Add64 1 p e0 = (r, p', e')" by (cases "Add64 1 p e0")
  note n = NewOptions64_Some [OF new]
  have m: "max_c (config p) = 1000" "\<not> exit (state p)" "currentNum (state p) = 0"
    "\<not> ignoreLength (config p)" "lastPercent (state p) = 0"
    using n by simp_all
  have i: "i64 1 = 1" by (rule i64_id) (simp_all add: minInt64_def maxInt64_def)
  have k: "currentNum (state p') = 1"
    using Add64_below [OF a] m by (simp add: i)
  have pc: "currentPercent (state p') = 0"
    using Add64_percent [OF a] m k percent_zero [of 1 1000] by simp
  have r: "r = Returned None"
    using a
  proof (cases rule: Add64_cases)
    case (exceeded u s3)
    with k m show ?thesis by simp
  next
    case (rendered u s3 e1 s4)
    from render_frame [OF rendered(6)] have "kept s4 = kept s3" by simp
    note kf = kept_fields [OF this]
    with bookkeeping_fields [OF rendered(3)] rendered pc m c show ?thesis by simp
  qed (use m in auto)
  have w: "written e0 = []" by (simp add: e0_def slow_env_def example_env_def)
  from redraw_test_ignores_bytes [OF a] show ?thesis
    using new c m k pc r w by (simp add: e0_def [symmetric] a)
qed



section \<open>What a drawing writes\<close>


lemma writeString_cases:
  assumes "writeString c str e = (r, e')"
  shows "(r = None \<and> writer c (written e) str \<and> e' = e\<lparr>written := written e @ [str]\<rparr>)
       \<or> (r = Some ErrWrite \<and> \<not> writer c (written e) str \<and> e' = e)"
  using assms by (auto simp: writeString_def split: if_splits)

lemma emit_effect:
  assumes "emit c str s e = ((w, r), s', e')"
  shows "rendered s' = (if colorCodes c then Color e str else str)
       \<and> w = getStringWidth c e (rendered s')
       \<and> (r = Returned None \<and> written e' = written e @ [rendered s']
          \<or> r = Returned (Some ErrWrite) \<and> written e' = written e)
       \<and> (r = Returned None) = writer c (written e) (rendered s')"
  using assms
  by (auto simp: emit_def Let_def dest!: writeString_cases split: prod.splits)

lemma getStringWidth_cong:
  assumes "colorCodes c' = colorCodes c" "outside e' = outside e"
  shows "getStringWidth c' e' str = getStringWidth c e str"
  using outside_fields [OF assms(2)] assms(1) by (simp add: getStringWidth_def)

lemma renderProgressBar_written:
  assumes "renderProgressBar c s e = ((w, r), s', e')"
  shows "(r = Returned None \<longrightarrow> written e' = written e @ [rendered s']
            \<and> w = getStringWidth c e (rendered s'))
       \<and> (r \<noteq> Returned None \<longrightarrow> written e' = written e)
       \<and> (r \<noteq> Panicked \<longrightarrow> (r = Returned None) = writer c (written e) (rendered s'))"
proof -
  obtain avg e1 where a: "averageRate s e = (avg, e1)" by (cases "averageRate s e")
  note ea = averageRate_env [OF a]
  show ?thesis
  proof (cases "info (math_Log e1) c s avg")
    case None
    with assms a ea show ?thesis by (simp add: renderProgressBar_def)
  next
    case (Some sb)
    obtain l e2 where lb: "leftBrac_text c s e1 = (l, e2)" by (cases "leftBrac_text c s e1")
    note el = leftBrac_text_env [OF lb]
    define c' where "c' = (if fullWidth c \<and> \<not> ignoreLength c
        then c\<lparr>width := fitted_width c e2 sb l (rightBrac_text c s avg)\<rparr> else c)"
    define s1 where "s1 = (if fullWidth c \<and> \<not> ignoreLength c
        then s\<lparr>currentSaucerSize :=
                 f64_to_int (f64_mul (f64_div (f64_of_int (currentPercent s)) (Fin 100))
                                     (f64_of_int (width c')))\<rparr>
        else s)"
    obtain sa sh alt where sp: "saucer_parts c' s1 = (sa, sh, alt)"
      by (cases "saucer_parts c' s1")
    define s2 where "s2 = s1\<lparr>isAltSaucerHead := alt\<rparr>"
    have cc: "colorCodes c' = colorCodes c" "ignoreLength c' = ignoreLength c"
      "writer c' = writer c"
      by (simp_all add: c'_def)
    have o2: "outside e2 = outside e" "written e2 = written e" using ea el by simp_all
    show ?thesis
    proof (cases "ignoreLength c")
      case False
      have "emit c' (bar_line c' s2 sa sh (max 0 (i64 (width c' - currentSaucerSize s2))) sb l
                      (rightBrac_text c s avg)) s2 e2 = ((w, r), s', e')"
        using assms False sp unfolding renderProgressBar_def c'_def s1_def s2_def
        by (cases "fullWidth c") (simp_all add: a Some lb Let_def)
      from emit_effect [OF this] getStringWidth_cong [OF cc(1) o2(1)] o2 cc(3)
      show ?thesis by auto
    next
      case True
      obtain fr e3 where sf: "spinner_frame c' s2 e2 = (fr, e3)"
        by (cases "spinner_frame c' s2 e2")
      note es = spinner_frame_env [OF sf]
      have o3: "outside e3 = outside e" "written e3 = written e" using es o2 by simp_all
      show ?thesis
      proof (cases fr)
        case None
        with assms True o3 sp sf show ?thesis
          unfolding renderProgressBar_def c'_def s1_def s2_def
          by (cases "fullWidth c") (simp_all add: a Some lb Let_def)
      next
        case (Some spinner)
        have "emit c' (spinner_line c' spinner sb l) s2 e3 = ((w, r), s', e')"
          using assms True Some \<open>info (math_Log e1) c s avg = Some sb\<close> sp sf
          unfolding renderProgressBar_def c'_def s1_def s2_def
          by (cases "fullWidth c") (simp_all add: a lb Let_def)
        from emit_effect [OF this] getStringWidth_cong [OF cc(1) o3(1)] o3 cc(3)
        show ?thesis by auto
      qed
    qed
  qed
qed

lemma info_plain: "\<not> showBytes c \<Longrightarrow> info lg c s avg \<noteq> None"
  by (simp add: info_def count_text_def rate_text_def)

lemma bar_width:
  "bar_text (c\<lparr>width := w\<rparr>) = bar_text c" "bar_line (c\<lparr>width := w\<rparr>) = bar_line c"
  by (simp_all add: fun_eq_iff bar_line_def bar_text_def Let_def)

lemma renderProgressBar_known:
  assumes "renderProgressBar c s e = ((w, r), s', e')" "\<not> ignoreLength c" "r \<noteq> Panicked"
  shows "\<exists>avg e1 sb l e2 s2 sa sh ra.
           averageRate s e = (avg, e1) \<and> info (math_Log e) c s avg = Some sb
         \<and> leftBrac_text c s e1 = (l, e2)
         \<and> currentPercent s2 = currentPercent s
         \<and> rendered s' =
              (if colorCodes c
               then Color e (bar_line c s2 sa sh ra sb l (rightBrac_text c s avg))
               else bar_line c s2 sa sh ra sb l (rightBrac_text c s avg))"
proof -
  obtain avg e1 where a: "averageRate s e = (avg, e1)" by (cases "averageRate s e")
  note ea = averageRate_env [OF a]
  from assms a obtain sb where sb: "info (math_Log e1) c s avg = Some sb"
    by (cases "info (math_Log e1) c s avg") (auto simp: renderProgressBar_def)
  have sb': "info (math_Log e) c s avg = Some sb"
    using sb outside_fields(8) [of e1 e] ea by simp
  obtain l e2 where lb: "leftBrac_text c s e1 = (l, e2)" by (cases "leftBrac_text c s e1")
  note el = leftBrac_text_env [OF lb]
  define c' where "c' = (if fullWidth c \<and> \<not> ignoreLength c
      then c\<lparr>width := fitted_width c e2 sb l (rightBrac_text c s avg)\<rparr> else c)"
  define s1 where "s1 = (if fullWidth c \<and> \<not> ignoreLength c
      then s\<lparr>currentSaucerSize :=
               f64_to_int (f64_mul (f64_div (f64_of_int (currentPercent s)) (Fin 100))
                                   (f64_of_int (width c')))\<rparr>
      else s)"
  obtain sa sh alt where sp: "saucer_parts c' s1 = (sa, sh, alt)"
    by (cases "saucer_parts c' s1")
  define s2 where "s2 = s1\<lparr>isAltSaucerHead := alt\<rparr>"
  define ra where "ra = max 0 (i64 (width c' - currentSaucerSize s2))"
  have cc: "colorCodes c' = colorCodes c" "bar_line c' = bar_line c"
    by (simp_all add: c'_def bar_width)
  have o2: "outside e2 = outside e" using ea el by simp
  have s2p: "currentPercent s2 = currentPercent s" by (simp add: s2_def s1_def)
  have "emit c' (bar_line c' s2 sa sh ra sb l (rightBrac_text c s avg)) s2 e2 = ((w, r), s', e')"
    using assms(1,2) sp unfolding renderProgressBar_def c'_def s1_def s2_def ra_def
    by (cases "fullWidth c") (simp_all add: a sb lb Let_def)
  from emit_effect [OF this] cc outside_fields(4) [OF o2]
  have "rendered s' = (if colorCodes c
               then Color e (bar_line c s2 sa sh ra sb l (rightBrac_text c s avg))
               else bar_line c s2 sa sh ra sb l (rightBrac_text c s avg))"
    by simp
  with a sb' lb s2p show ?thesis by blast
qed

lemma renderProgressBar_plain:
  assumes "renderProgressBar c s e = ((w, r), s', e')" "\<not> ignoreLength c" "\<not> showBytes c"
  shows "r \<noteq> Panicked"
proof -
  obtain avg e1 where a: "averageRate s e = (avg, e1)" by (cases "averageRate s e")
  from info_plain [OF assms(3), of "math_Log e1" s avg]
  obtain sb where sb: "info (math_Log e1) c s avg = Some sb" by blast
  show ?thesis
    using assms(1,2) unfolding renderProgressBar_def
    by (cases "fullWidth c")
       (auto simp: a sb Let_def emit_def writeString_def split: prod.splits if_splits)
qed

lemma clearProgressBar_effect:
  assumes "clearProgressBar c s e = (r, e')" "\<not> useANSICodes c" "0 \<le> maxLineWidth s"
  shows "(maxLineWidth s = 0 \<longrightarrow> r = Returned None \<and> e' = e)
       \<and> (maxLineWidth s \<noteq> 0 \<and> writer c (written e) ([CHR 0x0D] @ Repeat '' '' (maxLineWidth s) @ [CHR 0x0D])
            \<longrightarrow> r = Returned None
              \<and> written e' = written e @ [[CHR 0x0D] @ Repeat '' '' (maxLineWidth s) @ [CHR 0x0D]])
       \<and> (maxLineWidth s \<noteq> 0 \<and> \<not> writer c (written e) ([CHR 0x0D] @ Repeat '' '' (maxLineWidth s) @ [CHR 0x0D])
            \<longrightarrow> r = Returned (Some ErrWrite) \<and> e' = e)"
  using assms
  by (auto simp: clearProgressBar_def Let_def dest!: writeString_cases split: prod.splits if_splits)

lemma clearProgressBar_done:
  assumes "clearProgressBar c s e = (Returned None, e')" "\<not> useANSICodes c"
  shows "written e' = written e
           @ (if maxLineWidth s \<noteq> 0
              then [[CHR 0x0D] @ Repeat '' '' (maxLineWidth s) @ [CHR 0x0D]] else [])"
  using assms
  by (auto simp: clearProgressBar_def Let_def dest!: writeString_cases split: prod.splits if_splits)

lemma render_drawing:
  assumes "render c s e = (Returned None, s', e')" "\<not> finished s" "currentNum s < max_c c"
    "\<not> fst (Since (lastShown s) e) < throttleDuration c"
  shows "written e' = written e
           @ (if \<not> useANSICodes c \<and> maxLineWidth s \<noteq> 0
              then [[CHR 0x0D] @ Repeat '' '' (maxLineWidth s) @ [CHR 0x0D]] else [])
           @ [rendered s']
       \<and> maxLineWidth s' = max (maxLineWidth s) (getStringWidth c e (rendered s'))"
proof -
  obtain d e1 where d: "Since (lastShown s) e = (d, e1)" by (cases "Since (lastShown s) e")
  note ed = Since_env [OF d]
  obtain r1 e2 where c1: "(if \<not> useANSICodes c then clearProgressBar c s e1 else (Returned None, e1)) = (r1, e2)"
    by (cases "if \<not> useANSICodes c then clearProgressBar c s e1 else (Returned None, e1)")
  have nt: "\<not> d < throttleDuration c" using assms(4) d by simp
  have r1: "r1 = Returned None"
    using assms(1) d c1 nt unfolding render_def by (auto simp: Let_def split: if_splits)
  have w2: "written e2 = written e
           @ (if \<not> useANSICodes c \<and> maxLineWidth s \<noteq> 0
              then [[CHR 0x0D] @ Repeat '' '' (maxLineWidth s) @ [CHR 0x0D]] else [])"
    and o2: "outside e2 = outside e"
    using c1 r1 ed clearProgressBar_done [of c s e1 e2] clearProgressBar_env [of c s e1 r1 e2]
    by (auto split: if_splits)
  obtain w r4 s3 e4 where rp: "renderProgressBar c s e2 = ((w, r4), s3, e4)"
    by (cases "renderProgressBar c s e2") auto
  obtain now e5 where n: "Now e4 = (now, e5)" by (cases "Now e4")
  have r4: "r4 = Returned None"
    using assms(1,2,3) d c1 nt r1 rp unfolding render_def
    by (auto simp: Let_def split: if_splits)
  have res: "s' = (if maxLineWidth s3 < w then s3\<lparr>maxLineWidth := w\<rparr> else s3)\<lparr>lastShown := now\<rparr>"
    "e' = e5"
    using assms(1,2,3) d c1 nt r1 rp r4 n unfolding render_def
    by (auto simp: Let_def split: if_splits)
  from renderProgressBar_written [OF rp] r4
  have w4: "written e4 = written e2 @ [rendered s3]" "w = getStringWidth c e2 (rendered s3)"
    by simp_all
  from renderProgressBar_frame [OF rp] have "drawn s3 = drawn s" by simp
  note df = drawn_fields [OF this]
  have gw: "getStringWidth c e2 (rendered s3) = getStringWidth c e (rendered s3)"
    by (rule getStringWidth_cong [OF refl o2])
  from Now_env [OF n] w4 w2 df(9) gw show ?thesis
    by (auto simp: res)
qed

lemma render_accepting:
  assumes "render c s e = (r, s', e')" "\<And>h str. writer c h str" "\<not> showBytes c"
    "\<not> ignoreLength c" "0 \<le> maxLineWidth s"
  shows "r = Returned None"
proof -
  have cl: "\<And>s0 e0 r0 e0'. clearProgressBar c s0 e0 = (r0, e0') \<Longrightarrow> 0 \<le> maxLineWidth s0
              \<Longrightarrow> r0 = Returned None"
    using assms(2)
    by (auto simp: clearProgressBar_def writeString_def Let_def split: if_splits prod.splits)
  have rp: "\<And>s0 e0 w0 r0 s0' e0'. renderProgressBar c s0 e0 = ((w0, r0), s0', e0')
              \<Longrightarrow> r0 = Returned None"
  proof -
    fix s0 e0 w0 r0 s0' e0'
    assume a: "renderProgressBar c s0 e0 = ((w0, r0), s0', e0')"
    from renderProgressBar_plain [OF a assms(4,3)] have np: "r0 \<noteq> Panicked" .
    obtain avg e1 where av: "averageRate s0 e0 = (avg, e1)" by (cases "averageRate s0 e0")
    from info_plain [OF assms(3), of "math_Log e1" s0 avg]
    obtain sb where sb: "info (math_Log e1) c s0 avg = Some sb" by blast
    show "r0 = Returned None"
      using a assms(2,4) unfolding renderProgressBar_def
      by (cases "fullWidth c")
         (auto simp: av sb Let_def emit_def writeString_def split: prod.splits if_splits)
  qed
  have fi: "\<And>s0 e0 r0 s0' e0'. finish c s0 e0 = (r0, s0', e0')
              \<Longrightarrow> r0 = Returned None \<and> maxLineWidth s0' = maxLineWidth s0"
  proof -
    fix s0 e0 r0 s0' e0'
    assume f: "finish c s0 e0 = (r0, s0', e0')"
    obtain w1 r1 s1 e1 where b: "renderProgressBar c (s0\<lparr>finished := True\<rparr>) e0 = ((w1, r1), s1, e1)"
      by (cases "renderProgressBar c (s0\<lparr>finished := True\<rparr>) e0") auto
    from rp [OF b] have r1: "r1 = Returned None" .
    from renderProgressBar_frame [OF b] have "drawn s1 = drawn (s0\<lparr>finished := True\<rparr>)" by simp
    from drawn_fields(9) [OF this] have "maxLineWidth s1 = maxLineWidth s0" by simp
    with f b r1 show "r0 = Returned None \<and> maxLineWidth s0' = maxLineWidth s0"
      unfolding finish_def by (auto simp: Let_def split: if_splits option.splits)
  qed
  obtain d e1 where d: "Since (lastShown s) e = (d, e1)" by (cases "Since (lastShown s) e")
  obtain r1 e2 where c1: "(if \<not> useANSICodes c then clearProgressBar c s e1 else (Returned None, e1)) = (r1, e2)"
    by (cases "if \<not> useANSICodes c then clearProgressBar c s e1 else (Returned None, e1)")
  have r1: "r1 = Returned None" using c1 cl assms(5) by (auto split: if_splits)
  obtain r2 s2 e3 where f: "(if \<not> finished s \<and> max_c c \<le> currentNum s then finish c s e2
                             else (Returned None, s, e2)) = (r2, s2, e3)"
    by (cases "if \<not> finished s \<and> max_c c \<le> currentNum s then finish c s e2
               else (Returned None, s, e2)")
  have r2: "r2 = Returned None" "maxLineWidth s2 = maxLineWidth s"
    using f fi by (auto split: if_splits)
  obtain r3 e4 where c3: "clearProgressBar c s2 e3 = (r3, e4)" by (cases "clearProgressBar c s2 e3")
  have r3: "r3 = Returned None" using c3 cl r2 assms(5) by auto
  obtain w r4 s3 e5 where b: "renderProgressBar c s2 e3 = ((w, r4), s3, e5)"
    by (cases "renderProgressBar c s2 e3") auto
  have r4: "r4 = Returned None" using rp [OF b] .
  show ?thesis
    using assms(1) unfolding render_def
    by (simp add: d c1 r1 f r2 c3 r3 b r4 Let_def split: if_splits prod.splits)
qed

lemma bar_line_visible:
  "filter (\<lambda>ch. ch \<noteq> CHR 0x0D) (bar_line c s sa sh ra sb l rb) \<noteq> []"
  by (simp add: bar_line_def bar_text_def Let_def)

lemma bar_line_head: "hd (bar_line c s sa sh ra sb l rb) = CHR 0x0D"
  by (simp add: bar_line_def Let_def)

lemma render_known:
  assumes "render c s e = (Returned None, s', e')" "\<not> finished s" "currentNum s < max_c c"
    "\<not> fst (Since (lastShown s) e) < throttleDuration c" "\<not> ignoreLength c"
  shows "\<exists>avg sb l s2 sa sh ra.
           info (math_Log e) c s avg = Some sb \<and> currentPercent s2 = currentPercent s
         \<and> rendered s' =
              (if colorCodes c
               then Color e (bar_line c s2 sa sh ra sb l (rightBrac_text c s avg))
               else bar_line c s2 sa sh ra sb l (rightBrac_text c s avg))"
proof -
  obtain d e1 where d: "Since (lastShown s) e = (d, e1)" by (cases "Since (lastShown s) e")
  note ed = Since_env [OF d]
  obtain r1 e2 where c1: "(if \<not> useANSICodes c then clearProgressBar c s e1 else (Returned None, e1)) = (r1, e2)"
    by (cases "if \<not> useANSICodes c then clearProgressBar c s e1 else (Returned None, e1)")
  have nt: "\<not> d < throttleDuration c" using assms(4) d by simp
  have r1: "r1 = Returned None"
    using assms(1) d c1 nt unfolding render_def by (auto simp: Let_def split: if_splits)
  have o2: "outside e2 = outside e"
    using c1 ed clearProgressBar_env [of c s e1 r1 e2] by (auto split: if_splits)
  obtain w r4 s3 e4 where rp: "renderProgressBar c s e2 = ((w, r4), s3, e4)"
    by (cases "renderProgressBar c s e2") auto
  obtain now e5 where n: "Now e4 = (now, e5)" by (cases "Now e4")
  have r4: "r4 = Returned None"
    using assms(1,2,3) d c1 nt r1 rp unfolding render_def
    by (auto simp: Let_def split: if_splits)
  have res: "rendered s' = rendered s3"
    using assms(1,2,3) d c1 nt r1 rp r4 n unfolding render_def
    by (auto simp: Let_def split: if_splits)
  from renderProgressBar_known [OF rp assms(5)] r4
  obtain avg sb l s2 sa sh ra where k: "info (math_Log e2) c s avg = Some sb"
      "currentPercent s2 = currentPercent s"
      "rendered s3 =
              (if colorCodes c
               then Color e2 (bar_line c s2 sa sh ra sb l (rightBrac_text c s avg))
               else bar_line c s2 sa sh ra sb l (rightBrac_text c s avg))"
    by auto
  have "rendered s' =
              (if colorCodes c
               then Color e (bar_line c s2 sa sh ra sb l (rightBrac_text c s avg))
               else bar_line c s2 sa sh ra sb l (rightBrac_text c s avg))"
    using k(3) res outside_fields(4) [OF o2] by simp
  moreover have "info (math_Log e) c s avg = Some sb"
    using k(1) outside_fields(8) [OF o2] by simp
  ultimately show ?thesis using k(2) by blast
qed

lemma render_first_line:
  assumes "render c s e = (r, s', e')" "maxLineWidth s = 0" "\<not> finished s"
    "currentNum s < max_c c" "\<not> ignoreLength c" "\<not> showBytes c"
    "\<And>str. writer c (written e) str"
  shows "r = Returned None"
proof -
  obtain d e1 where d: "Since (lastShown s) e = (d, e1)" by (cases "Since (lastShown s) e")
  note ed = Since_env [OF d]
  have c1: "clearProgressBar c s e1 = (Returned None, e1)"
    using assms(2) by (simp add: clearProgressBar_def)
  obtain w r4 s3 e4 where rp: "renderProgressBar c s e1 = ((w, r4), s3, e4)"
    by (cases "renderProgressBar c s e1") auto
  from renderProgressBar_plain [OF rp assms(5,6)] renderProgressBar_written [OF rp] ed assms(7)
  have r4: "r4 = Returned None" by simp
  show ?thesis
    using assms(1,3,4) unfolding render_def
    by (simp add: d c1 rp r4 Let_def split: if_splits prod.splits)
qed

lemma render_clear_fails:
  assumes "render c s e = (r, s', e')" "\<not> useANSICodes c" "0 < maxLineWidth s"
    "max_c c \<le> currentNum s"
    "\<not> writer c (written e) ([CHR 0x0D] @ Repeat '' '' (maxLineWidth s) @ [CHR 0x0D])"
  shows "r = Returned (Some ErrWrite) \<and> s' = s \<and> called e' = called e \<and> written e' = written e"
proof -
  obtain d e1 where d: "Since (lastShown s) e = (d, e1)" by (cases "Since (lastShown s) e")
  note ed = Since_env [OF d]
  obtain r1 e2 where c1: "clearProgressBar c s e1 = (r1, e2)" by (cases "clearProgressBar c s e1")
  from clearProgressBar_effect [OF c1 assms(2)] assms(3,5) ed
  have "r1 = Returned (Some ErrWrite)" "e2 = e1" by simp_all
  with assms(1,2,4) ed show ?thesis
    unfolding render_def by (simp add: d c1 Let_def)
qed

lemma render_width:
  assumes "render c s e = (r, s', e')"
  shows "maxLineWidth s \<le> maxLineWidth s'"
proof -
  obtain d e1 where d: "Since (lastShown s) e = (d, e1)" by (cases "Since (lastShown s) e")
  obtain r1 e2 where c1: "(if \<not> useANSICodes c then clearProgressBar c s e1 else (Returned None, e1)) = (r1, e2)"
    by (cases "if \<not> useANSICodes c then clearProgressBar c s e1 else (Returned None, e1)")
  obtain r2 s2 e3 where f: "(if \<not> finished s \<and> max_c c \<le> currentNum s then finish c s e2
                             else (Returned None, s, e2)) = (r2, s2, e3)"
    by (cases "if \<not> finished s \<and> max_c c \<le> currentNum s then finish c s e2
               else (Returned None, s, e2)")
  have m2: "maxLineWidth s2 = maxLineWidth s"
  proof (cases "\<not> finished s \<and> max_c c \<le> currentNum s")
    case True
    with f have ff: "finish c s e2 = (r2, s2, e3)" by simp
    obtain w1 q1 s1 e1' where b: "renderProgressBar c (s\<lparr>finished := True\<rparr>) e2 = ((w1, q1), s1, e1')"
      by (cases "renderProgressBar c (s\<lparr>finished := True\<rparr>) e2") auto
    from renderProgressBar_frame [OF b] have "drawn s1 = drawn (s\<lparr>finished := True\<rparr>)" by simp
    from drawn_fields(9) [OF this] have "maxLineWidth s1 = maxLineWidth s" by simp
    with ff b show ?thesis
      unfolding finish_def by (auto simp: Let_def split: if_splits option.splits)
  next
    case False
    with f show ?thesis by auto
  qed
  obtain r3 e4 where c3: "clearProgressBar c s2 e3 = (r3, e4)" by (cases "clearProgressBar c s2 e3")
  obtain w r4 s3 e5 where b: "renderProgressBar c s2 e3 = ((w, r4), s3, e5)"
    by (cases "renderProgressBar c s2 e3") auto
  from renderProgressBar_frame [OF b] have "drawn s3 = drawn s2" by simp
  from drawn_fields(9) [OF this] m2 have m3: "maxLineWidth s3 = maxLineWidth s" by simp
  obtain now e6 where n: "Now e5 = (now, e6)" by (cases "Now e5")
  show ?thesis
    using assms(1) m2 m3 unfolding render_def
    by (auto simp: d c1 f c3 b n Let_def split: if_splits)
qed



section \<open>Completion\<close>


lemma Add64_unfinished:
  assumes "Add64 n p e = (r, p', e')" "currentNum (state p') < max_c (config p)"
    "\<not> finished (state p)"
  shows "\<not> finished (state p') \<and> called e' = called e"
  using assms(1)
proof (cases rule: Add64_cases)
  case (exceeded u s3)
  with bookkeeping_fields [OF exceeded(3)] assms(3) show ?thesis by simp
next
  case (rendered u s3 e1 s4)
  from render_frame [OF rendered(6)] have "kept s4 = kept s3" by simp
  from kept_fields(1) [OF this] assms(2) rendered(7)
  have lt: "currentNum s3 < max_c (config p)" by simp
  note bf = bookkeeping_fields [OF rendered(3)]
  from render_unfinished [OF rendered(6) lt] bf assms(3) rendered(7) show ?thesis by simp
next
  case (quiet u s3)
  with bookkeeping_fields [OF quiet(3)] assms(3) show ?thesis by simp
qed (use assms in auto)

lemma Add64_reaching_max:
  assumes "Add64 n p e = (Returned None, p', e')" "\<not> exit (state p)"
    "0 < max_c (config p)" "max_c (config p) \<le> 2 ^ 53"
    "currentNum (state p') = max_c (config p)" "\<not> finished (state p)"
    "lastPercent (state p) < 100"
  shows "finished (state p') \<and>
         called e' = called e @ (case onCompletion (config p) of None \<Rightarrow> [] | Some f \<Rightarrow> [f])"
  using assms(1)
proof (cases rule: Add64_cases)
  case (rendered u s3 e1 s4)
  from render_frame [OF rendered(6)] have "kept s4 = kept s3" by simp
  from kept_fields(1) [OF this] assms(5) rendered(7)
  have eq: "max_c (config p) \<le> currentNum s3" by simp
  note bf = bookkeeping_fields [OF rendered(3)]
  from render_finishing [OF rendered(6) eq] bf assms(6) rendered(7) show ?thesis by simp
next
  case (quiet u s3)
  note bf = bookkeeping_fields [OF quiet(3)]
  have "currentNum s3 = max_c (config p)" using quiet assms(5) by simp
  with bf(9) percent_full [OF assms(3,4)] have "currentPercent s3 = 100" by simp
  with bf(11) assms(7) quiet(5) show ?thesis by simp
qed (use assms in auto)

lemma Adds_units_unfinished:
  "Adds (replicate k 1) p e = (rs, p', e') \<Longrightarrow> \<not> ignoreLength (config p) \<Longrightarrow>
   \<not> exit (state p) \<Longrightarrow> max_c (config p) \<noteq> 0 \<Longrightarrow> minInt64 \<le> currentNum (state p) \<Longrightarrow>
   currentNum (state p) + int k < max_c (config p) \<Longrightarrow> max_c (config p) \<le> maxInt64 \<Longrightarrow>
   \<not> finished (state p) \<Longrightarrow>
   \<not> finished (state p') \<and> called e' = called e"
proof (induction k arbitrary: p e rs p' e')
  case 0
  then show ?case by simp
next
  case (Suc k)
  obtain r p1 e1 where a: "Add64 1 p e = (r, p1, e1)" by (cases "Add64 1 p e")
  obtain rs1 p2 e2 where b: "Adds (replicate k 1) p1 e1 = (rs1, p2, e2)"
    by (cases "Adds (replicate k 1) p1 e1")
  from Suc.prems(1) a b have eq: "p' = p2" "e' = e2" by simp_all
  have lt: "currentNum (state p) < max_c (config p)" using Suc.prems(6) by simp
  have "i64 (currentNum (state p) + 1) = currentNum (state p) + 1"
    using Suc.prems(5,6,7) by (intro i64_id) simp_all
  with Add64_below [OF a Suc.prems(3,2) lt Suc.prems(4)]
  have c: "currentNum (state p1) = currentNum (state p) + 1" by simp
  note f = Add64_frame [OF a]
  have u: "\<not> finished (state p1) \<and> called e1 = called e"
    using Suc.prems(6,8) c by (intro Add64_unfinished [OF a]) simp_all
  have "\<not> finished (state p2) \<and> called e2 = called e1"
    using Suc.prems f c u by (intro Suc.IH [OF b]) simp_all
  with u show ?case by (simp add: eq)
qed

lemma Add64_width:
  assumes "Add64 n p e = (r, p', e')"
  shows "maxLineWidth (state p) \<le> maxLineWidth (state p')"
  using assms
proof (cases rule: Add64_cases)
  case (exceeded u s3)
  with bookkeeping_fields(6) [OF exceeded(3)] show ?thesis by simp
next
  case (rendered u s3 e1 s4)
  with bookkeeping_fields(6) [OF rendered(3)] render_width [OF rendered(6)] show ?thesis by simp
next
  case (quiet u s3)
  with bookkeeping_fields(6) [OF quiet(3)] show ?thesis by simp
qed auto

lemma Add64_accepting:
  assumes "Add64 n p e = (r, p', e')" "\<And>h str. writer (config p) h str"
    "\<not> showBytes (config p)" "\<not> ignoreLength (config p)" "0 \<le> maxLineWidth (state p)"
    "\<not> exit (state p)" "max_c (config p) \<noteq> 0" "currentNum (state p') \<le> max_c (config p)"
  shows "r = Returned None"
  using assms(1)
proof (cases rule: Add64_cases)
  case (exceeded u s3)
  with assms(8) show ?thesis by simp
next
  case (rendered u s3 e1 s4)
  from bookkeeping_fields(6) [OF rendered(3)] assms(5) have "0 \<le> maxLineWidth s3" by simp
  from render_accepting [OF rendered(6) assms(2,3,4) this] show ?thesis .
qed (use assms in auto)

lemma Sub_nonneg: "u \<le> t \<Longrightarrow> 0 \<le> Sub t u"
  by (simp add: Sub_def minInt64_def maxInt64_def)

lemma Add64_first_line:
  assumes "Add64 n p e = (r, p', e')" "\<not> exit (state p)" "max_c (config p) \<noteq> 0"
    "\<not> ignoreLength (config p)" "\<not> showBytes (config p)" "\<not> colorCodes (config p)"
    "maxLineWidth (state p) = 0" "\<not> finished (state p)"
    "currentNum (state p') < max_c (config p)"
    "0 < currentPercent (state p')" "currentPercent (state p') \<noteq> lastPercent (state p)"
    "\<And>str. writer (config p) (written e) str" "throttleDuration (config p) \<le> 0"
    "\<And>k. lastShown (state p) \<le> clock e k" "\<And>str. StringWidth e str = int (length str)"
  shows "r = Returned None \<and> 0 < maxLineWidth (state p')
         \<and> written e' = written e @ [rendered (state p')]"
  using assms(1)
proof (cases rule: Add64_cases)
  case (exceeded u s3)
  with assms(9) show ?thesis by simp
next
  case (rendered u s3 e1 s4)
  note bf = bookkeeping_fields [OF rendered(3)]
  from render_frame [OF rendered(6)] have "kept s4 = kept s3" by simp
  note kf = kept_fields [OF this]
  have lt: "currentNum s3 < max_c (config p)" using kf(1) assms(9) rendered(7) by simp
  have nf: "\<not> finished s3" using bf(3) assms(8) by simp
  have m0: "maxLineWidth s3 = 0" using bf(6) assms(7) by simp
  have w: "\<And>str. writer (config p) (written e1) str" using bf(13) assms(12) by simp
  from render_first_line [OF rendered(6) m0 nf lt assms(4,5) w]
  have r: "r = Returned None" .
  have "clock e1 = clock e" using outside_fields(1) [OF bf(12)] .
  then have "0 \<le> Sub (clock e1 (reads e1)) (lastShown s3)"
    using assms(14) bf(7) by (intro Sub_nonneg) simp
  then have nt: "\<not> fst (Since (lastShown s3) e1) < throttleDuration (config p)"
    using assms(13) by (simp add: Since_def Now_def)
  note rr = rendered(6) [unfolded r]
  from render_drawing [OF rr nf lt nt] m0 bf(13)
  have wr: "written e' = written e @ [rendered s4]"
    and mw: "maxLineWidth s4 = max 0 (getStringWidth (config p) e1 (rendered s4))"
    by simp_all
  from render_known [OF rr nf lt nt assms(4)] assms(6)
  obtain s2 sa sh ra sb l rb where "rendered s4 = bar_line (config p) s2 sa sh ra sb l rb"
    by auto
  then have "filter (\<lambda>ch. ch \<noteq> CHR 0x0D) (rendered s4) \<noteq> []"
    by (simp only: bar_line_visible not_False_eq_True)
  moreover have "StringWidth e1 = StringWidth e" using outside_fields(5) [OF bf(12)] .
  ultimately have "0 < getStringWidth (config p) e1 (rendered s4)"
    using assms(6,15) by (simp add: getStringWidth_def)
  with r wr mw rendered(7) show ?thesis by simp
next
  case (quiet u s3)
  with bookkeeping_fields [OF quiet(3)] assms(10,11) show ?thesis by simp
qed (use assms in auto)

lemma Add64_clear_fails:
  assumes "Add64 n p e = (r, p', e')" "\<not> exit (state p)"
    "0 < max_c (config p)" "max_c (config p) \<le> 2 ^ 53"
    "currentNum (state p') = max_c (config p)" "lastPercent (state p) < 100"
    "\<not> useANSICodes (config p)" "0 < maxLineWidth (state p)"
    "\<And>str. \<not> writer (config p) (written e) str"
  shows "r = Returned (Some ErrWrite) \<and> finished (state p') = finished (state p)
         \<and> called e' = called e \<and> written e' = written e"
  using assms(1)
proof (cases rule: Add64_cases)
  case (exceeded u s3)
  with assms(5) show ?thesis by simp
next
  case (rendered u s3 e1 s4)
  note bf = bookkeeping_fields [OF rendered(3)]
  from render_frame [OF rendered(6)] have "kept s4 = kept s3" by simp
  from kept_fields(1) [OF this] assms(5) rendered(7)
  have eq: "max_c (config p) \<le> currentNum s3" by simp
  have m: "0 < maxLineWidth s3" using bf(6) assms(8) by simp
  have w: "\<not> writer (config p) (written e1)
               ([CHR 0x0D] @ Repeat '' '' (maxLineWidth s3) @ [CHR 0x0D])"
    using bf(13) assms(9) by simp
  from render_clear_fails [OF rendered(6) assms(7) m eq w] bf rendered(7)
  show ?thesis by simp
next
  case (quiet u s3)
  note bf = bookkeeping_fields [OF quiet(3)]
  have "currentNum s3 = max_c (config p)" using quiet assms(5) by simp
  with bf(9) percent_full [OF assms(3,4)] have "currentPercent s3 = 100" by simp
  with bf(11) assms(6) quiet(5) show ?thesis by simp
qed (use assms in auto)

lemma percent_half:
  "f64_to_int (f64_mul (f64_div (f64_of_int 1) (f64_of_int 2)) (Fin 100)) = 50"
proof -
  have a: "f64_of_int 1 = Fin 1" "f64_of_int 2 = Fin 2"
    using f64_of_int_exact [of 1] f64_of_int_exact [of 2] by simp_all
  have h: "f64_round (1 / 2) = Fin (1 / 2)" using f64_round_half [of 1] by simp
  have f: "f64_round 50 = Fin 50" using f64_of_int_exact [of 50] by (simp add: f64_of_int_def)
  show ?thesis by (simp add: a h f minInt64_def maxInt64_def)
qed

text \<open>
  Claim C3, as the code has it.  For a bar of a length from 1 to \<open>2 ^ 53\<close>, whatever its
  options: while fewer calls of \<open>Add(1)\<close> than the length have been made the bar is not
  finished and the callback has not been invoked; and when the call that makes the
  counter reach the length returns nil, the bar is finished and the callback, if one
  is configured, has been invoked once, by that call.
\<close>

theorem completion_once:
  assumes "NewOptions64 mx opts e = Some (p0, e0)" "0 < mx" "mx \<le> 2 ^ 53"
    and "Adds (replicate (nat mx) 1) p0 e0 = (rs, p', e')" "last rs = Returned None"
  shows "finished (state p')
       \<and> called e' = called e @ (case onCompletion (config p0) of None \<Rightarrow> [] | Some f \<Rightarrow> [f])
       \<and> (\<forall>k < nat mx. \<not> finished (state (fst (snd (Adds (replicate k 1) p0 e0))))
                         \<and> called (snd (snd (Adds (replicate k 1) p0 e0))) = called e)"
proof -
  note n = NewOptions64_Some [OF assms(1)]
  have c0: "max_c (config p0) = mx" "\<not> ignoreLength (config p0)" "\<not> exit (state p0)"
    "currentNum (state p0) = 0" "lastPercent (state p0) = 0" "\<not> finished (state p0)"
    "called e0 = called e"
    using n assms(2) by simp_all
  have mi: "mx \<le> maxInt64" using assms(3) by (simp add: maxInt64_def)
  have before: "\<not> finished (state pk) \<and> called ek = called e \<and> currentNum (state pk) = int k
                \<and> config pk = config p0 \<and> \<not> exit (state pk)"
    if "Adds (replicate k 1) p0 e0 = (rk, pk, ek)" "int k < mx" for k rk pk ek
  proof -
    have "\<not> finished (state pk) \<and> called ek = called e0"
      using c0 that(2) assms(2) mi
      by (intro Adds_units_unfinished [OF that(1)]) (simp_all add: minInt64_def)
    moreover have "currentNum (state pk) = currentNum (state p0) + int k"
      using c0 that(2) assms(2) mi
      by (intro Adds_units [OF that(1)]) (simp_all add: minInt64_def)
    ultimately show ?thesis using Adds_frame [OF that(1)] c0 by simp
  qed
  define j where "j = nat mx - 1"
  have j: "nat mx = Suc j" "int j = mx - 1" using assms(2) by (simp_all add: j_def)
  obtain rs1 p1 e1 where a1: "Adds (replicate j 1) p0 e0 = (rs1, p1, e1)"
    by (cases "Adds (replicate j 1) p0 e0")
  obtain r where a2: "Add64 1 p1 e1 = (r, p', e')" and rs: "rs = rs1 @ [r]"
  proof -
    obtain r p2 e2 where b: "Add64 1 p1 e1 = (r, p2, e2)" by (cases "Add64 1 p1 e1")
    have "replicate (nat mx) (1::int) = replicate j 1 @ [1]"
      by (simp only: j replicate_Suc replicate_append_same)
    with assms(4) a1 b have "rs = rs1 @ [r]" "p' = p2" "e' = e2"
      by (simp_all add: Adds_append)
    with b that show ?thesis by simp
  qed
  have r: "r = Returned None" using assms(5) rs by simp
  have b1: "\<not> finished (state p1)" "called e1 = called e" "currentNum (state p1) = mx - 1"
    "config p1 = config p0" "\<not> exit (state p1)"
    using before [OF a1] j by simp_all
  have lp: "lastPercent (state p1) < 100"
  proof (cases j)
    case 0
    with a1 c0 show ?thesis by simp
  next
    case (Suc i)
    have "replicate j (1::int) = replicate i 1 @ [1]"
      by (simp only: Suc replicate_Suc replicate_append_same)
    with a1 have "Adds (replicate i 1 @ [1]) p0 e0 = (rs1, p1, e1)" by simp
    from Adds_last_percent [OF this] c0 assms(2)
    have "lastPercent (state p1) =
            f64_to_int (f64_mul (f64_div (f64_of_int (currentNum (state p1)))
                                         (f64_of_int mx)) (Fin 100))"
      by simp
    also have "\<dots> < 100"
      unfolding b1(3) using assms(2,3) Suc j by (intro percent_below(1)) simp_all
    finally show ?thesis .
  qed
  have "i64 mx = mx" using assms(2) mi by (intro i64_id) (simp_all add: minInt64_def)
  then have "i64 (mx - 1 + 1) = mx" by simp
  with Add64_below [OF a2] b1 c0 assms(2) have cn: "currentNum (state p') = mx" by simp
  from Add64_reaching_max [OF a2 [unfolded r]] b1 c0 assms(2,3) cn lp
  have "finished (state p')
       \<and> called e' = called e @ (case onCompletion (config p0) of None \<Rightarrow> [] | Some f \<Rightarrow> [f])"
    by simp
  moreover have "\<not> finished (state (fst (snd (Adds (replicate k 1) p0 e0))))
                 \<and> called (snd (snd (Adds (replicate k 1) p0 e0))) = called e"
    if "k < nat mx" for k
  proof -
    obtain rk pk ek where ak: "Adds (replicate k 1) p0 e0 = (rk, pk, ek)"
      by (cases "Adds (replicate k 1) p0 e0")
    from that have "int k < mx" by simp
    from before [OF ak this] show ?thesis by (simp add: ak)
  qed
  ultimately show ?thesis by blast
qed

lemma NewOptions64_two:
  "\<exists>p e0. NewOptions64 2 [OptionSetWriter w, OptionOnCompletion f] slow_env = Some (p, e0)
       \<and> writer (config p) = w \<and> onCompletion (config p) = f
       \<and> \<not> showBytes (config p) \<and> \<not> colorCodes (config p) \<and> \<not> useANSICodes (config p)
       \<and> throttleDuration (config p) = 0
       \<and> maxLineWidth (state p) = 0 \<and> lastShown (state p) = 0
       \<and> written e0 = [] \<and> called e0 = [] \<and> clock e0 = (\<lambda>n. int n * 1000000000)
       \<and> StringWidth e0 = (\<lambda>s. int (length s))"
proof -
  have f: "f64_of_int 2 = Fin 2" using f64_of_int_exact [of 2] by simp
  have "humanizeBytes example_Log (Fin 2) = Some (pad_left 2 CHR '' '' (fixed 0 2), '' B'')"
    by (rule humanizeBytes_small) simp
  then show ?thesis
    by (simp add: NewOptions64_def getBasicState_def Now_def Let_def f slow_env_def example_env_def)
qed

theorem completion_once_witness:
  "(case NewOptions64 2 [OptionSetWriter (\<lambda>h str. True), OptionOnCompletion (Some 7)] slow_env of
      None \<Rightarrow> False
    | Some (p0, e0) \<Rightarrow>
        (case Adds [1, 1] p0 e0 of
           (rs, p', e') \<Rightarrow> last rs = Returned None \<and> finished (state p') \<and> called e' = [7]))"
proof -
  obtain p0 e0 where new: "NewOptions64 2 [OptionSetWriter (\<lambda>h str. True), OptionOnCompletion (Some 7)]
                          slow_env = Some (p0, e0)"
    and c: "writer (config p0) = (\<lambda>h str. True)" "onCompletion (config p0) = Some 7"
      "\<not> showBytes (config p0)" "maxLineWidth (state p0) = 0"
    using NewOptions64_two [of "\<lambda>h str. True" "Some 7"] by auto
  note n = NewOptions64_Some [OF new]
  have c0: "max_c (config p0) = 2" "\<not> ignoreLength (config p0)" "\<not> exit (state p0)"
    "currentNum (state p0) = 0"
    using n by simp_all
  obtain r1 p1 e1 where a1: "Add64 1 p0 e0 = (r1, p1, e1)" by (cases "Add64 1 p0 e0")
  obtain r2 p2 e2 where a2: "Add64 1 p1 e1 = (r2, p2, e2)" by (cases "Add64 1 p1 e1")
  have run: "Adds (replicate (nat 2) 1) p0 e0 = ([r1, r2], p2, e2)"
    using a1 a2 by (simp add: numeral_2_eq_2)
  note f1 = Add64_frame [OF a1]
  have i: "i64 1 = 1" "i64 2 = 2" by (rule i64_id; simp add: minInt64_def maxInt64_def)+
  have k1: "currentNum (state p1) = 1" using Add64_below [OF a1] c0 by (simp add: i)
  have k2: "currentNum (state p2) = 2" using Add64_below [OF a2] f1 c0 k1 by (simp add: i)
  have "0 \<le> maxLineWidth (state p1)" using Add64_width [OF a1] c by simp
  then have r2: "r2 = Returned None"
    using f1 c c0 k2 by (intro Add64_accepting [OF a2]) simp_all
  have "called slow_env = []" by (simp add: slow_env_def example_env_def)
  with completion_once [OF new _ _ run] r2 c show ?thesis
    by (simp add: new a1 a2)
qed

text \<open>
  Claim C3 as it is worded holds for every tracker.  With a bar of length 2 whose writer
  takes its first write and no other, the first call of \<open>Add(1)\<close> draws the line; the
  second brings the counter to 2, the write that clears the line fails, \<open>render\<close>
  returns that error before its test of the end, and the bar is left not finished with
  the callback not invoked.
\<close>

theorem writer_failure_prevents_completion:
  "(case NewOptions64 2 [OptionSetWriter (\<lambda>h str. h = []), OptionOnCompletion (Some 7)] slow_env of
      None \<Rightarrow> False
    | Some (p0, e0) \<Rightarrow>
        (case Adds [1, 1] p0 e0 of
           (rs, p', e') \<Rightarrow> rs = [Returned None, Returned (Some ErrWrite)]
                          \<and> currentNum (state p') = 2 \<and> max_c (config p') = 2
                          \<and> \<not> finished (state p') \<and> called e' = []))"
proof -
  obtain p0 e0 where new: "NewOptions64 2 [OptionSetWriter (\<lambda>h str. h = []), OptionOnCompletion (Some 7)]
                          slow_env = Some (p0, e0)"
    and c: "writer (config p0) = (\<lambda>h str. h = [])" "onCompletion (config p0) = Some 7"
      "\<not> showBytes (config p0)" "\<not> colorCodes (config p0)" "\<not> useANSICodes (config p0)"
      "throttleDuration (config p0) = 0" "maxLineWidth (state p0) = 0" "lastShown (state p0) = 0"
    and en: "written e0 = []" "called e0 = []" "clock e0 = (\<lambda>n. int n * 1000000000)"
      "StringWidth e0 = (\<lambda>s. int (length s))"
    using NewOptions64_two [of "\<lambda>h str. h = []" "Some 7"] by auto
  note n = NewOptions64_Some [OF new]
  have c0: "max_c (config p0) = 2" "\<not> ignoreLength (config p0)" "\<not> exit (state p0)"
    "currentNum (state p0) = 0" "lastPercent (state p0) = 0" "\<not> finished (state p0)"
    using n by simp_all
  obtain r1 p1 e1 where a1: "Add64 1 p0 e0 = (r1, p1, e1)" by (cases "Add64 1 p0 e0")
  obtain r2 p2 e2 where a2: "Add64 1 p1 e1 = (r2, p2, e2)" by (cases "Add64 1 p1 e1")
  note f1 = Add64_frame [OF a1] and f2 = Add64_frame [OF a2]
  have i: "i64 1 = 1" "i64 2 = 2" by (rule i64_id; simp add: minInt64_def maxInt64_def)+
  have k1: "currentNum (state p1) = 1" using Add64_below [OF a1] c0 by (simp add: i)
  have k2: "currentNum (state p2) = 2" using Add64_below [OF a2] f1 c0 k1 by (simp add: i)
  have p1: "currentPercent (state p1) = 50" "lastPercent (state p1) = 50"
    using Add64_percent [OF a1] c0 k1 percent_half by simp_all
  have s1: "r1 = Returned None \<and> 0 < maxLineWidth (state p1)
         \<and> written e1 = written e0 @ [rendered (state p1)]"
    using c c0 k1 p1 en by (intro Add64_first_line [OF a1]) simp_all
  have u1: "\<not> finished (state p1) \<and> called e1 = called e0"
    using c0 k1 by (intro Add64_unfinished [OF a1]) simp_all
  have s2: "r2 = Returned (Some ErrWrite) \<and> finished (state p2) = finished (state p1)
         \<and> called e2 = called e1 \<and> written e2 = written e1"
    using c c0 f1 k2 p1 s1 en by (intro Add64_clear_fails [OF a2]) simp_all
  from s1 s2 u1 k2 f1 f2 c0 en show ?thesis
    by (simp add: new a1 a2)
qed



section \<open>Clearing the line\<close>


lemma Repeat_space: "0 \<le> n \<Longrightarrow> Repeat '' '' n = replicate (nat n) CHR '' ''"
  by (induction "nat n" arbitrary: n) (auto simp: Repeat_def replicate_append_same)

lemma slow_bar_facts:
  "max_c (config (fst slow_bar)) = 10 \<and> \<not> ignoreLength (config (fst slow_bar))
   \<and> \<not> showBytes (config (fst slow_bar)) \<and> \<not> colorCodes (config (fst slow_bar))
   \<and> \<not> useANSICodes (config (fst slow_bar))
   \<and> throttleDuration (config (fst slow_bar)) = 0
   \<and> writer (config (fst slow_bar)) = (\<lambda>h s. True)
   \<and> currentNum (state (fst slow_bar)) = 0 \<and> \<not> finished (state (fst slow_bar))
   \<and> lastShown (state (fst slow_bar)) = 0
   \<and> written (snd slow_bar) = [] \<and> reads (snd slow_bar) = 1
   \<and> clock (snd slow_bar) = (\<lambda>n. int n * 1000000000)"
  using NewOptions64_Some [OF slow_bar_new] NewOptions64_nil [OF slow_bar_new]
  by (simp add: slow_env_def example_env_def)

lemma clearProgressBar_ansi:
  assumes "clearProgressBar c s e = (Returned None, e')" "useANSICodes c"
  shows "written e' = written e
           @ (if maxLineWidth s \<noteq> 0
              then [[CHR 0x1B, CHR ''['', CHR ''2'', CHR ''K'', CHR 0x0D]] else [])"
  using assms
  by (auto simp: clearProgressBar_def Let_def dest!: writeString_cases split: prod.splits if_splits)

lemma render_clearing:
  \<comment> \<open>the first step of a call of \<open>render\<close> that is not throttled\<close>
  assumes "render c s e = (Returned None, s', e')" "Since (lastShown s) e = (d, e1)"
    "\<not> (d < throttleDuration c \<and> currentNum s < max_c c)"
  obtains e2 where
    "(if \<not> useANSICodes c then clearProgressBar c s e1 else (Returned None, e1))
       = (Returned None, e2)"
    "outside e2 = outside e" "called e2 = called e"
    "written e2 = written e
       @ (if \<not> useANSICodes c \<and> maxLineWidth s \<noteq> 0
          then [[CHR 0x0D] @ Repeat '' '' (maxLineWidth s) @ [CHR 0x0D]] else [])"
proof -
  note ed = Since_env [OF assms(2)]
  obtain r1 e2 where c1: "(if \<not> useANSICodes c then clearProgressBar c s e1 else (Returned None, e1)) = (r1, e2)"
    by (cases "if \<not> useANSICodes c then clearProgressBar c s e1 else (Returned None, e1)")
  have r1: "r1 = Returned None"
    using assms c1 unfolding render_def by (auto simp: Let_def split: if_splits)
  have w: "written e2 = written e
           @ (if \<not> useANSICodes c \<and> maxLineWidth s \<noteq> 0
              then [[CHR 0x0D] @ Repeat '' '' (maxLineWidth s) @ [CHR 0x0D]] else [])"
    and o: "outside e2 = outside e" "called e2 = called e"
    using c1 r1 ed clearProgressBar_done [of c s e1 e2] clearProgressBar_env [of c s e1 r1 e2]
    by (auto split: if_splits)
  from c1 r1 have "(if \<not> useANSICodes c then clearProgressBar c s e1 else (Returned None, e1))
       = (Returned None, e2)" by simp
  from that [OF this o w] show ?thesis .
qed

lemma render_throttled:
  assumes "render c s e = (r, s', e')"
    "fst (Since (lastShown s) e) < throttleDuration c" "currentNum s < max_c c"
  shows "r = Returned None \<and> s' = s \<and> written e' = written e \<and> called e' = called e"
proof -
  obtain d e1 where d: "Since (lastShown s) e = (d, e1)" by (cases "Since (lastShown s) e")
  note ed = Since_env [OF d]
  from assms d ed show ?thesis unfolding render_def by (simp add: Let_def)
qed

lemma render_finished_written:
  assumes "render c s e = (Returned None, s', e')" "finished s"
    "\<not> (fst (Since (lastShown s) e) < throttleDuration c \<and> currentNum s < max_c c)"
  shows "written e' = written e
           @ (if \<not> useANSICodes c \<and> maxLineWidth s \<noteq> 0
              then [[CHR 0x0D] @ Repeat '' '' (maxLineWidth s) @ [CHR 0x0D]] else [])
           @ (if useANSICodes c \<and> clearOnFinish c \<and> maxLineWidth s \<noteq> 0
              then [[CHR 0x1B, CHR ''['', CHR ''2'', CHR ''K'', CHR 0x0D]] else [])"
proof -
  obtain d e1 where d: "Since (lastShown s) e = (d, e1)" by (cases "Since (lastShown s) e")
  have nt: "\<not> (d < throttleDuration c \<and> currentNum s < max_c c)" using assms(3) d by simp
  from assms(1) d nt obtain e2
    where c1: "(if \<not> useANSICodes c then clearProgressBar c s e1 else (Returned None, e1))
                 = (Returned None, e2)"
      and w2: "written e2 = written e
                 @ (if \<not> useANSICodes c \<and> maxLineWidth s \<noteq> 0
                    then [[CHR 0x0D] @ Repeat '' '' (maxLineWidth s) @ [CHR 0x0D]] else [])"
    by (rule render_clearing)
  obtain r3 e4 where c3: "clearProgressBar c s e2 = (r3, e4)" by (cases "clearProgressBar c s e2")
  show ?thesis
  proof (cases "useANSICodes c \<and> clearOnFinish c")
    case True
    then have "r3 = Returned None" "e' = e4"
      using assms(1,2) d c1 nt c3 unfolding render_def by (auto simp: Let_def)
    with clearProgressBar_ansi [of c s e2 e4] c3 True w2 show ?thesis by simp
  next
    case False
    then have "e' = e2"
      using assms(1,2) d c1 nt unfolding render_def by (auto simp: Let_def)
    with w2 False show ?thesis by auto
  qed
qed

lemma render_finishing_written:
  assumes "render c s e = (Returned None, s', e')" "\<not> finished s" "max_c c \<le> currentNum s"
  shows "written e' = written e
           @ (if \<not> useANSICodes c \<and> maxLineWidth s \<noteq> 0
              then [[CHR 0x0D] @ Repeat '' '' (maxLineWidth s) @ [CHR 0x0D]] else [])
           @ (if \<not> clearOnFinish c
                 \<and> writer c (written e
                     @ (if \<not> useANSICodes c \<and> maxLineWidth s \<noteq> 0
                        then [[CHR 0x0D] @ Repeat '' '' (maxLineWidth s) @ [CHR 0x0D]] else []))
                     (rendered s')
              then [rendered s'] else [])
           @ (if useANSICodes c \<and> clearOnFinish c \<and> maxLineWidth s \<noteq> 0
              then [[CHR 0x1B, CHR ''['', CHR ''2'', CHR ''K'', CHR 0x0D]] else [])"
proof -
  define pre where "pre = (if \<not> useANSICodes c \<and> maxLineWidth s \<noteq> 0
              then [[CHR 0x0D] @ Repeat '' '' (maxLineWidth s) @ [CHR 0x0D]] else [])"
  obtain d e1 where d: "Since (lastShown s) e = (d, e1)" by (cases "Since (lastShown s) e")
  have nt: "\<not> (d < throttleDuration c \<and> currentNum s < max_c c)"
    using assms(3) by simp
  from assms(1) d nt obtain e2
    where c1: "(if \<not> useANSICodes c then clearProgressBar c s e1 else (Returned None, e1))
                 = (Returned None, e2)"
      and w2: "written e2 = written e @ pre"
    unfolding pre_def by (rule render_clearing)
  obtain r2 s2 e3 where f: "finish c s e2 = (r2, s2, e3)" by (cases "finish c s e2")
  have r2: "r2 \<noteq> Panicked"
    using assms d c1 f unfolding render_def by (auto simp: Let_def split: if_splits)
  from finish_frame [OF f] r2 have f2: "finished s2" by simp
  have fw: "written e3 = written e2
              @ (if \<not> clearOnFinish c \<and> writer c (written e2) (rendered s2)
                 then [rendered s2] else [])
            \<and> maxLineWidth s2 = maxLineWidth s"
  proof (cases "clearOnFinish c")
    case True
    with f show ?thesis unfolding finish_def by (auto simp: Let_def split: option.splits)
  next
    case False
    obtain w r4 s3 e4 where rp: "renderProgressBar c (s\<lparr>finished := True\<rparr>) e2 = ((w, r4), s3, e4)"
      by (cases "renderProgressBar c (s\<lparr>finished := True\<rparr>) e2") auto
    have r4: "r4 \<noteq> Panicked" "s2 = s3" "written e3 = written e4"
      using f r2 rp False unfolding finish_def by (auto simp: Let_def split: option.splits if_splits)
    from renderProgressBar_frame [OF rp] have "drawn s3 = drawn (s\<lparr>finished := True\<rparr>)" by simp
    from drawn_fields(9) [OF this] have "maxLineWidth s3 = maxLineWidth s" by simp
    with renderProgressBar_written [OF rp] r4 False show ?thesis by auto
  qed
  obtain r3 e5 where c3: "clearProgressBar c s2 e3 = (r3, e5)" by (cases "clearProgressBar c s2 e3")
  have res: "rendered s' = rendered s2"
    "(useANSICodes c \<and> clearOnFinish c \<longrightarrow> r3 = Returned None \<and> e' = e5)"
    "(\<not> (useANSICodes c \<and> clearOnFinish c) \<longrightarrow> e' = e3)"
    using assms d c1 f r2 f2 c3 unfolding render_def by (auto simp: Let_def split: if_splits)
  show ?thesis
  proof (cases "useANSICodes c \<and> clearOnFinish c")
    case True
    with res c3 have "clearProgressBar c s2 e3 = (Returned None, e')" by simp
    from clearProgressBar_ansi [OF this] True fw w2 res(1) show ?thesis
      by (simp add: pre_def)
  next
    case False
    with res fw w2 show ?thesis by (auto simp: pre_def)
  qed
qed

text \<open>
  Claim C5, as the code has it.  What a call of \<open>render\<close> that returns nil has written.
  Throttled, nothing.  Otherwise, first, when ANSI codes are off and a line has been
  drawn before (the greatest width so far is not 0), a carriage return, that many
  spaces and a carriage return; with ANSI codes on nothing is written first.  Then: on
  a bar that is not finished and whose counter is below the maximum, the new line, and
  the greatest width becomes the larger of its old value and the new line's width; on
  a bar that is not finished and whose counter has reached the maximum, the last line,
  unless \<open>clearOnFinish\<close> is on or the writer refuses it; on a finished bar, no line.
  Last, in the two cases of the counter at the maximum and of the finished bar, with
  ANSI codes and \<open>clearOnFinish\<close> on and a line drawn before, the sequence that erases
  the line and a carriage return.
\<close>

theorem render_clears_the_line:
  assumes "render c s e = (Returned None, s', e')" "0 \<le> maxLineWidth s"
  shows "(let throttled = (fst (Since (lastShown s) e) < throttleDuration c \<and> currentNum s < max_c c);
              spaces = (if \<not> useANSICodes c \<and> maxLineWidth s \<noteq> 0
                        then [[CHR 0x0D] @ replicate (nat (maxLineWidth s)) CHR '' '' @ [CHR 0x0D]]
                        else []);
              erase = (if useANSICodes c \<and> clearOnFinish c \<and> maxLineWidth s \<noteq> 0
                       then [[CHR 0x1B, CHR ''['', CHR ''2'', CHR ''K'', CHR 0x0D]] else [])
          in (throttled \<longrightarrow> written e' = written e)
           \<and> (\<not> throttled \<and> \<not> finished s \<and> currentNum s < max_c c \<longrightarrow>
                written e' = written e @ spaces @ [rendered s']
                \<and> maxLineWidth s' = max (maxLineWidth s) (getStringWidth c e (rendered s')))
           \<and> (\<not> finished s \<and> max_c c \<le> currentNum s \<longrightarrow>
                written e' = written e @ spaces
                  @ (if \<not> clearOnFinish c \<and> writer c (written e @ spaces) (rendered s')
                     then [rendered s'] else [])
                  @ erase)
           \<and> (\<not> throttled \<and> finished s \<longrightarrow> written e' = written e @ spaces @ erase))"
proof -
  have sp: "Repeat '' '' (maxLineWidth s) = replicate (nat (maxLineWidth s)) CHR '' ''"
    using assms(2) by (rule Repeat_space)
  have a: "written e' = written e"
    if "fst (Since (lastShown s) e) < throttleDuration c" "currentNum s < max_c c"
    using render_throttled [OF assms(1) that] by simp
  note b = render_drawing [OF assms(1), unfolded sp]
  note c = render_finishing_written [OF assms(1), unfolded sp]
  note d = render_finished_written [OF assms(1), unfolded sp]
  show ?thesis
    unfolding Let_def using a b c d by (intro conjI impI) auto
qed

theorem render_clears_the_line_witness:
  "(case render (config (fst slow_bar)) ((state (fst slow_bar))\<lparr>maxLineWidth := 7\<rparr>) (snd slow_bar) of
      (r, s', e') \<Rightarrow> r = Returned None
                    \<and> written e' = [[CHR 0x0D] @ replicate 7 CHR '' '' @ [CHR 0x0D], rendered s'])"
proof -
  define c where "c = config (fst slow_bar)"
  define s where "s = (state (fst slow_bar))\<lparr>maxLineWidth := 7\<rparr>"
  obtain r s' e' where a: "render c s (snd slow_bar) = (r, s', e')"
    by (cases "render c s (snd slow_bar)")
  note f = slow_bar_facts
  have r: "r = Returned None"
    using f by (intro render_accepting [OF a]) (simp_all add: c_def s_def)
  have nt: "\<not> fst (Since (lastShown s) (snd slow_bar)) < throttleDuration c"
    using f by (simp add: c_def s_def Since_def Now_def Sub_def minInt64_def maxInt64_def)
  have h: "\<not> finished s" "currentNum s < max_c c" "0 \<le> maxLineWidth s" "\<not> useANSICodes c"
    "maxLineWidth s = 7" "written (snd slow_bar) = []"
    using f by (simp_all add: c_def s_def)
  from render_clears_the_line [OF a [unfolded r] h(3)] nt h
  have "written e' = [[CHR 0x0D] @ replicate 7 CHR '' '' @ [CHR 0x0D], rendered s']"
    by (simp add: Let_def)
  with r show ?thesis
    unfolding c_def [symmetric] s_def [symmetric] by (simp add: a)
qed

text \<open>
  Claim C5 as it is worded has the sequence that erases the line written before the
  new line when ANSI codes are on.  With ANSI codes on, a line of width 7 drawn before
  and the counter at 0 of 10, \<open>render\<close> writes one string, the new line, which begins
  with a carriage return.
\<close>

theorem ansi_render_does_not_erase:
  "(case render ((config (fst slow_bar))\<lparr>useANSICodes := True\<rparr>)
                ((state (fst slow_bar))\<lparr>maxLineWidth := 7\<rparr>) (snd slow_bar) of
      (r, s', e') \<Rightarrow> r = Returned None \<and> written e' = [rendered s']
                    \<and> hd (rendered s') = CHR 0x0D)"
proof -
  define c where "c = (config (fst slow_bar))\<lparr>useANSICodes := True\<rparr>"
  define s where "s = (state (fst slow_bar))\<lparr>maxLineWidth := 7\<rparr>"
  obtain r s' e' where a: "render c s (snd slow_bar) = (r, s', e')"
    by (cases "render c s (snd slow_bar)")
  note f = slow_bar_facts
  have r: "r = Returned None"
    using f by (intro render_accepting [OF a]) (simp_all add: c_def s_def)
  have nt: "\<not> fst (Since (lastShown s) (snd slow_bar)) < throttleDuration c"
    using f by (simp add: c_def s_def Since_def Now_def Sub_def minInt64_def maxInt64_def)
  have nf: "\<not> finished s" "currentNum s < max_c c" "\<not> ignoreLength c" "\<not> colorCodes c"
    "useANSICodes c"
    using f by (simp_all add: c_def s_def)
  from render_known [OF a [unfolded r] nf(1,2) nt nf(3)] nf(4)
  obtain s2 sa sh ra sb l rb where "rendered s' = bar_line c s2 sa sh ra sb l rb" by auto
  then have "hd (rendered s') = CHR 0x0D" by (simp only: bar_line_head)
  with render_drawing [OF a [unfolded r] nf(1,2) nt] nf(5) f show ?thesis
    unfolding c_def [symmetric] s_def [symmetric] by (simp add: a r)
qed



section \<open>The times at the end of the line\<close>


lemma duration_String_nonempty: "duration_String d \<noteq> []"
  by (simp add: duration_String_def Let_def)

lemma rightBrac_text_nonempty: "predictTime c \<Longrightarrow> rightBrac_text c s avg \<noteq> []"
  by (simp add: rightBrac_text_def Let_def duration_String_nonempty)

lemma bar_line_segment:
  "rb \<noteq> [] \<Longrightarrow> bar_line c s sa sh ra sb l rb =
     (if showDescriptionAtLineEnd c
      then [CHR 0x0D] @ (if currentPercent s = 100 then bar_text c s sa sh ra sb
                         else bar_text c s sa sh ra sb @ '' ['' @ l @ '':'' @ rb @ '']'')
           @ '' '' @ description c
      else [CHR 0x0D] @ description c
           @ (if currentPercent s = 100 then bar_text c s sa sh ra sb
              else bar_text c s sa sh ra sb @ '' ['' @ l @ '':'' @ rb @ '']''))"
  by (simp add: bar_line_def Let_def)

lemma render_finishing_line:
  assumes "render c s e = (Returned None, s', e')" "\<not> finished s" "max_c c \<le> currentNum s"
    "\<not> clearOnFinish c" "\<not> ignoreLength c"
  shows "\<exists>sf avg sb l s2 sa sh ra.
           info (math_Log e) c sf avg = Some sb \<and> currentPercent s2 = currentPercent s
         \<and> rendered s' =
              (if colorCodes c
               then Color e (bar_line c s2 sa sh ra sb l (rightBrac_text c sf avg))
               else bar_line c s2 sa sh ra sb l (rightBrac_text c sf avg))"
proof -
  obtain d e1 where d: "Since (lastShown s) e = (d, e1)" by (cases "Since (lastShown s) e")
  note ed = Since_env [OF d]
  obtain r1 e2 where c1: "(if \<not> useANSICodes c then clearProgressBar c s e1 else (Returned None, e1)) = (r1, e2)"
    by (cases "if \<not> useANSICodes c then clearProgressBar c s e1 else (Returned None, e1)")
  have r1: "r1 = Returned None"
    using assms(1,3) d c1 unfolding render_def by (auto simp: Let_def split: if_splits)
  have o2: "outside e2 = outside e"
    using c1 ed clearProgressBar_env [of c s e1 r1 e2] by (auto split: if_splits)
  obtain w r4 s3 e4 where rp: "renderProgressBar c (s\<lparr>finished := True\<rparr>) e2 = ((w, r4), s3, e4)"
    by (cases "renderProgressBar c (s\<lparr>finished := True\<rparr>) e2") auto
  from renderProgressBar_frame [OF rp] have "drawn s3 = drawn (s\<lparr>finished := True\<rparr>)" by simp
  from drawn_fields(11) [OF this] have f3: "finished s3" by simp
  have np: "r4 \<noteq> Panicked" and res: "rendered s' = rendered s3"
    using assms(1,2,3,4) d c1 r1 rp f3 unfolding render_def finish_def
    by (auto simp: Let_def split: if_splits option.splits prod.splits)
  from renderProgressBar_known [OF rp assms(5) np]
  obtain avg sb l s2 sa sh ra where k: "info (math_Log e2) c (s\<lparr>finished := True\<rparr>) avg = Some sb"
      "currentPercent s2 = currentPercent (s\<lparr>finished := True\<rparr>)"
      "rendered s3 =
              (if colorCodes c
               then Color e2 (bar_line c s2 sa sh ra sb l (rightBrac_text c (s\<lparr>finished := True\<rparr>) avg))
               else bar_line c s2 sa sh ra sb l (rightBrac_text c (s\<lparr>finished := True\<rparr>) avg))"
    by auto
  have "rendered s' =
              (if colorCodes c
               then Color e (bar_line c s2 sa sh ra sb l (rightBrac_text c (s\<lparr>finished := True\<rparr>) avg))
               else bar_line c s2 sa sh ra sb l (rightBrac_text c (s\<lparr>finished := True\<rparr>) avg))"
    using k(3) res outside_fields(4) [OF o2] by simp
  moreover have "currentPercent s2 = currentPercent s" using k(2) by simp
  moreover have "info (math_Log e) c (s\<lparr>finished := True\<rparr>) avg = Some sb"
    using k(1) outside_fields(8) [OF o2] by simp
  ultimately show ?thesis by blast
qed

lemma Add64_after_finish:
  assumes "Add64 n p e = (r, p', e')" "finished (state p)"
    "currentNum (state p) = max_c (config p)"
  shows "finished (state p') \<and> rendered (state p') = rendered (state p)
         \<and> currentNum (state p') = max_c (config p)"
  using assms(1)
proof (cases rule: Add64_cases)
  case (exceeded u s3)
  from bookkeeping_fields(1) [OF exceeded(3)] assms(3) exceeded(4)
  show ?thesis by (simp add: count_step_fields)
next
  case (rendered u s3 e1 s4)
  note bf = bookkeeping_fields [OF rendered(3)]
  from render_frame [OF rendered(6)] have "kept s4 = kept s3" by simp
  note kf = kept_fields [OF this]
  from render_finished [OF rendered(6)] bf assms(2,3) rendered(7) kf(1)
  show ?thesis by (simp add: count_step_fields)
next
  case (quiet u s3)
  with bookkeeping_fields [OF quiet(3)] assms(2,3) show ?thesis
    by (simp add: count_step_fields)
qed (use assms in auto)

lemma Add64_exceeded:
  assumes "Add64 n p e = (r, p', e')" "\<not> exit (state p)" "max_c (config p) \<noteq> 0"
    "max_c (config p) < currentNum (state p')"
  shows "r = Returned (Some ErrExceedsMax) \<and> rendered (state p') = rendered (state p)
         \<and> written e' = written e"
  using assms(1)
proof (cases rule: Add64_cases)
  case (exceeded u s3)
  with bookkeeping_fields [OF exceeded(3)] show ?thesis by simp
next
  case (rendered u s3 e1 s4)
  from render_frame [OF rendered(6)] have "kept s4 = kept s3" by simp
  from kept_fields(1) [OF this] rendered(4,7) assms(4) show ?thesis by simp
next
  case (quiet u s3)
  with assms(4) show ?thesis by simp
qed (use assms in auto)

lemma Add64_final_line:
  assumes "Add64 n p e = (Returned None, p', e')" "\<not> exit (state p)"
    "0 < max_c (config p)" "max_c (config p) \<le> 2 ^ 53"
    "currentNum (state p') = max_c (config p)" "\<not> finished (state p)"
    "lastPercent (state p) < 100" "\<not> clearOnFinish (config p)" "\<not> ignoreLength (config p)"
    "predictTime (config p)" "\<not> showDescriptionAtLineEnd (config p)"
  shows "\<exists>sf avg sb s2 sa sh ra.
           info (math_Log e) (config p) sf avg = Some sb \<and> currentPercent s2 = 100
         \<and> rendered (state p') =
              (if colorCodes (config p)
               then Color e ([CHR 0x0D] @ description (config p) @ bar_text (config p) s2 sa sh ra sb)
               else [CHR 0x0D] @ description (config p) @ bar_text (config p) s2 sa sh ra sb)"
  using assms(1)
proof (cases rule: Add64_cases)
  case (rendered u s3 e1 s4)
  note bf = bookkeeping_fields [OF rendered(3)]
  from render_frame [OF rendered(6)] have "kept s4 = kept s3" by simp
  from kept_fields(1) [OF this] assms(5) rendered(7)
  have eq: "currentNum s3 = max_c (config p)" by simp
  with bf(9) percent_full [OF assms(3,4)] have pc: "currentPercent s3 = 100" by simp
  have nf: "\<not> finished s3" using bf(3) assms(6) by simp
  have le: "max_c (config p) \<le> currentNum s3" using eq by simp
  from render_finishing_line [OF rendered(6) nf le assms(8,9)]
  obtain sf avg sb l s2 sa sh ra where k: "info (math_Log e1) (config p) sf avg = Some sb"
      "currentPercent s2 = currentPercent s3"
      "rendered s4 =
              (if colorCodes (config p)
               then Color e1 (bar_line (config p) s2 sa sh ra sb l (rightBrac_text (config p) sf avg))
               else bar_line (config p) s2 sa sh ra sb l (rightBrac_text (config p) sf avg))"
    by blast
  have rb: "rightBrac_text (config p) sf avg \<noteq> []"
    using assms(10) by (rule rightBrac_text_nonempty)
  have "bar_line (config p) s2 sa sh ra sb l (rightBrac_text (config p) sf avg)
          = [CHR 0x0D] @ description (config p) @ bar_text (config p) s2 sa sh ra sb"
    using k(2) pc assms(11) by (simp add: bar_line_segment [OF rb])
  with k(3) outside_fields(4) [OF bf(12)] rendered(7)
  have "rendered (state p') =
              (if colorCodes (config p)
               then Color e ([CHR 0x0D] @ description (config p) @ bar_text (config p) s2 sa sh ra sb)
               else [CHR 0x0D] @ description (config p) @ bar_text (config p) s2 sa sh ra sb)"
    by simp
  moreover have "currentPercent s2 = 100" using k(2) pc by simp
  moreover have "info (math_Log e) (config p) sf avg = Some sb"
    using k(1) outside_fields(8) [OF bf(12)] by simp
  ultimately show ?thesis by blast
next
  case (quiet u s3)
  note bf = bookkeeping_fields [OF quiet(3)]
  have "currentNum s3 = max_c (config p)" using quiet assms(5) by simp
  with bf(9) percent_full [OF assms(3,4)] have "currentPercent s3 = 100" by simp
  with bf(11) assms(7) quiet(5) show ?thesis by simp
qed (use assms in auto)

lemma renderProgressBar_segment:
  assumes "renderProgressBar c s e = ((w, r), s', e')" "\<not> ignoreLength c" "predictTime c"
    "r \<noteq> Panicked"
  shows "\<exists>avg sb l s2 sa sh ra.
           info (math_Log e) c s avg = Some sb \<and> currentPercent s2 = currentPercent s
         \<and> rightBrac_text c s avg \<noteq> []
         \<and> rendered s' =
             (if colorCodes c then Color e else (\<lambda>str. str))
               (if showDescriptionAtLineEnd c
                then [CHR 0x0D]
                     @ (if currentPercent s = 100 then bar_text c s2 sa sh ra sb
                        else bar_text c s2 sa sh ra sb
                             @ '' ['' @ l @ '':'' @ rightBrac_text c s avg @ '']'')
                     @ '' '' @ description c
                else [CHR 0x0D] @ description c
                     @ (if currentPercent s = 100 then bar_text c s2 sa sh ra sb
                        else bar_text c s2 sa sh ra sb
                             @ '' ['' @ l @ '':'' @ rightBrac_text c s avg @ '']''))"
proof -
  from renderProgressBar_known [OF assms(1,2,4)]
  obtain avg sb l s2 sa sh ra where k: "info (math_Log e) c s avg = Some sb"
      "currentPercent s2 = currentPercent s"
      "rendered s' =
              (if colorCodes c
               then Color e (bar_line c s2 sa sh ra sb l (rightBrac_text c s avg))
               else bar_line c s2 sa sh ra sb l (rightBrac_text c s avg))"
    by blast
  have rb: "rightBrac_text c s avg \<noteq> []" using assms(3) by (rule rightBrac_text_nonempty)
  have "rendered s' =
             (if colorCodes c then Color e else (\<lambda>str. str))
               (if showDescriptionAtLineEnd c
                then [CHR 0x0D]
                     @ (if currentPercent s = 100 then bar_text c s2 sa sh ra sb
                        else bar_text c s2 sa sh ra sb
                             @ '' ['' @ l @ '':'' @ rightBrac_text c s avg @ '']'')
                     @ '' '' @ description c
                else [CHR 0x0D] @ description c
                     @ (if currentPercent s = 100 then bar_text c s2 sa sh ra sb
                        else bar_text c s2 sa sh ra sb
                             @ '' ['' @ l @ '':'' @ rightBrac_text c s avg @ '']''))"
    unfolding k(3) bar_line_segment [OF rb] k(2) by simp
  with k(1,2) rb show ?thesis by blast
qed

text \<open>
  Claim C7, as the code has it.  For a bar of a length from 1 to \<open>2 ^ 53\<close>, whatever its
  options, and deltas that are not negative and sum to the length: when every call of
  \<open>Add64\<close> returns nil, the percentage at the end is 100, the bar is finished, and the
  line it holds is a carriage return, the description and the bar with its text in
  parentheses, with no times in square brackets after it.  And whenever
  \<open>renderProgressBar\<close> draws a bar of known length with the prediction of time on, the
  text of the remaining time is not empty, and the line has the segment
  \<open>[elapsed:remaining]\<close> after the bar exactly when the percentage is not 100.
\<close>

theorem time_segment_at_completion:
  assumes new: "NewOptions64 mx opts e = Some (p0, e0)" and mx: "0 < mx" "mx \<le> 2 ^ 53"
    and nn: "\<forall>n \<in> set ns. 0 \<le> n" and total: "sum_list ns = mx"
    and run: "Adds ns p0 e0 = (rs, p', e')" and ok: "\<forall>r \<in> set rs. r = Returned None"
  shows "currentPercent (state p') = 100 \<and> finished (state p')
       \<and> (\<exists>sf avg sb s2 sa sh ra.
             info (math_Log e) (config p0) sf avg = Some sb \<and> currentPercent s2 = 100
           \<and> rendered (state p') =
                (if colorCodes (config p0)
                 then Color e ([CHR 0x0D] @ description (config p0)
                               @ bar_text (config p0) s2 sa sh ra sb)
                 else [CHR 0x0D] @ description (config p0) @ bar_text (config p0) s2 sa sh ra sb))
       \<and> (\<forall>c s e1 w r s' e2.
             renderProgressBar c s e1 = ((w, r), s', e2) \<and> \<not> ignoreLength c \<and> predictTime c
             \<and> r \<noteq> Panicked \<longrightarrow>
             (\<exists>avg sb l s2 sa sh ra.
                info (math_Log e1) c s avg = Some sb \<and> currentPercent s2 = currentPercent s
              \<and> rightBrac_text c s avg \<noteq> []
              \<and> rendered s' =
                  (if colorCodes c then Color e1 else (\<lambda>str. str))
                    (if showDescriptionAtLineEnd c
                     then [CHR 0x0D]
                          @ (if currentPercent s = 100 then bar_text c s2 sa sh ra sb
                             else bar_text c s2 sa sh ra sb
                                  @ '' ['' @ l @ '':'' @ rightBrac_text c s avg @ '']'')
                          @ '' '' @ description c
                     else [CHR 0x0D] @ description c
                          @ (if currentPercent s = 100 then bar_text c s2 sa sh ra sb
                             else bar_text c s2 sa sh ra sb
                                  @ '' ['' @ l @ '':'' @ rightBrac_text c s avg @ '']''))))"
proof -
  define c where "c = config p0"
  define P where "P str \<longleftrightarrow>
      (\<exists>sf avg sb s2 sa sh ra.
             info (math_Log e) c sf avg = Some sb \<and> currentPercent s2 = 100
           \<and> str = (if colorCodes c
                    then Color e ([CHR 0x0D] @ description c @ bar_text c s2 sa sh ra sb)
                    else [CHR 0x0D] @ description c @ bar_text c s2 sa sh ra sb))" for str
  define Q where "Q p \<longleftrightarrow>
      (currentNum (state p) < mx \<and> \<not> finished (state p) \<and> lastPercent (state p) < 100)
    \<or> (currentNum (state p) = mx \<and> finished (state p) \<and> currentPercent (state p) = 100
        \<and> P (rendered (state p)))" for p :: ProgressBar
  note n = NewOptions64_Some [OF new]
  have cf: "max_c c = mx" "\<not> ignoreLength c" "predictTime c" "\<not> clearOnFinish c"
    "\<not> showDescriptionAtLineEnd c"
    using n mx by (simp_all add: c_def)
  have mi: "mx \<le> maxInt64" using mx by (simp add: maxInt64_def)
  have step: "Q p1 \<and> currentNum (state p1) = currentNum (state p) + n \<and> config p1 = c
              \<and> \<not> exit (state p1) \<and> outside e1 = outside e"
    if a: "Add64 n p ea = (Returned None, p1, e1)" and pc: "config p = c"
      and ne: "\<not> exit (state p)" and oe: "outside ea = outside e" and n0: "0 \<le> n"
      and k0: "0 \<le> currentNum (state p)" and le: "currentNum (state p) + n \<le> mx" and q: "Q p"
    for n p ea p1 e1
  proof -
    note f = Add64_frame [OF a]
    have m0: "max_c (config p) \<noteq> 0" "0 < max_c (config p)" "max_c (config p) \<le> 2 ^ 53"
      using cf mx pc by simp_all
    note pct = Add64_percent [OF a ne m0(1)]
    have fr: "config p1 = c \<and> \<not> exit (state p1) \<and> outside e1 = outside e"
      using f pc ne oe by simp
    show ?thesis
    proof (cases "currentNum (state p) < mx")
      case True
      with q have q1: "\<not> finished (state p)" "lastPercent (state p) < 100"
        by (auto simp: Q_def)
      have "i64 (currentNum (state p) + n) = currentNum (state p) + n"
        using k0 n0 le mi by (intro i64_id) (simp_all add: minInt64_def)
      with Add64_below [OF a ne _ _ m0(1)] True cf pc
      have cn: "currentNum (state p1) = currentNum (state p) + n" by simp
      show ?thesis
      proof (cases "currentNum (state p) + n < mx")
        case True
        have "\<not> finished (state p1)"
          using Add64_unfinished [OF a] cn True q1 cf pc by simp
        moreover have "lastPercent (state p1) < 100"
          using pct cn percent_below(1) [of "currentNum (state p) + n" mx] k0 n0 True mx cf pc
          by simp
        ultimately show ?thesis using cn True fr by (simp add: Q_def)
      next
        case False
        with le have eq: "currentNum (state p1) = max_c (config p)" using cn cf pc by simp
        from Add64_reaching_max [OF a ne m0(2,3) eq q1]
        have fin: "finished (state p1)" by simp
        have p100: "currentPercent (state p1) = 100"
          using pct eq percent_full [OF m0(2,3)] by simp
        have cfp: "\<not> clearOnFinish (config p)" "\<not> ignoreLength (config p)"
          "predictTime (config p)" "\<not> showDescriptionAtLineEnd (config p)"
          using cf pc by simp_all
        from Add64_final_line [OF a ne m0(2,3) eq q1 cfp]
        obtain sf avg sb s2 sa sh ra where k: "info (math_Log ea) (config p) sf avg = Some sb"
            "currentPercent s2 = 100"
            "rendered (state p1) =
              (if colorCodes (config p)
               then Color ea ([CHR 0x0D] @ description (config p) @ bar_text (config p) s2 sa sh ra sb)
               else [CHR 0x0D] @ description (config p) @ bar_text (config p) s2 sa sh ra sb)"
          by blast
        note k3 = k(3) [unfolded outside_fields(4) [OF oe]]
        note k1 = k(1) [unfolded outside_fields(8) [OF oe]]
        have "P (rendered (state p1))"
          unfolding P_def pc [symmetric] using k1 k(2) k3 by blast
        with fin p100 eq cn fr cf pc show ?thesis by (simp add: Q_def)
      qed
    next
      case False
      with q have q2: "currentNum (state p) = mx" "finished (state p)" "P (rendered (state p))"
        by (auto simp: Q_def)
      with le n0 have nz: "n = 0" by simp
      from Add64_after_finish [OF a q2(2)] q2 cf pc
      have af: "finished (state p1)" "rendered (state p1) = rendered (state p)"
        "currentNum (state p1) = mx"
        by simp_all
      have "currentPercent (state p1) = 100"
        using pct af(3) percent_full [OF m0(2,3)] cf pc by simp
      with af q2 nz fr show ?thesis by (simp add: Q_def)
    qed
  qed
  have main: "Adds ms p ea = (rs1, p1, e1) \<Longrightarrow> \<forall>n \<in> set ms. 0 \<le> n \<Longrightarrow>
      \<forall>r \<in> set rs1. r = Returned None \<Longrightarrow> config p = c \<Longrightarrow> \<not> exit (state p) \<Longrightarrow>
      outside ea = outside e \<Longrightarrow> 0 \<le> currentNum (state p) \<Longrightarrow>
      currentNum (state p) + sum_list ms = mx \<Longrightarrow> Q p \<Longrightarrow>
      Q p1 \<and> currentNum (state p1) = mx" for ms p ea rs1 p1 e1
  proof (induction ms arbitrary: p ea rs1 p1 e1)
    case Nil
    then show ?case by simp
  next
    case (Cons n ms)
    obtain r pa eb where a: "Add64 n p ea = (r, pa, eb)" by (cases "Add64 n p ea")
    obtain rs2 pb ec where b: "Adds ms pa eb = (rs2, pb, ec)" by (cases "Adds ms pa eb")
    from Cons.prems(1) a b have eq: "rs1 = r # rs2" "p1 = pb" by simp_all
    have r: "r = Returned None" and r2: "\<forall>r \<in> set rs2. r = Returned None"
      using Cons.prems(3) eq by simp_all
    have n0: "0 \<le> n" and ms0: "\<forall>n \<in> set ms. 0 \<le> n" using Cons.prems(2) by simp_all
    have "0 \<le> sum_list ms" using ms0 by (intro sum_list_nonneg) simp
    with Cons.prems(8) have le: "currentNum (state p) + n \<le> mx" by simp
    from step [OF a [unfolded r] Cons.prems(4,5,6) n0 Cons.prems(7) le Cons.prems(9)]
    have s: "Q pa" "currentNum (state pa) = currentNum (state p) + n" "config pa = c"
      "\<not> exit (state pa)" "outside eb = outside e"
      by simp_all
    have "Q pb \<and> currentNum (state pb) = mx"
      using s Cons.prems(7,8) n0 r2 ms0 by (intro Cons.IH [OF b]) simp_all
    then show ?case by (simp add: eq)
  qed
  have q0: "Q p0" using n mx by (simp add: Q_def)
  have "Q p' \<and> currentNum (state p') = mx"
    using n mx nn ok total q0 by (intro main [OF run]) (simp_all add: c_def)
  then have fin: "currentPercent (state p') = 100" "finished (state p')"
    "P (rendered (state p'))"
    by (auto simp: Q_def)
  have seg: "\<exists>avg sb l s2 sa sh ra.
                info (math_Log e1) c' s avg = Some sb \<and> currentPercent s2 = currentPercent s
              \<and> rightBrac_text c' s avg \<noteq> []
              \<and> rendered s' =
                  (if colorCodes c' then Color e1 else (\<lambda>str. str))
                    (if showDescriptionAtLineEnd c'
                     then [CHR 0x0D]
                          @ (if currentPercent s = 100 then bar_text c' s2 sa sh ra sb
                             else bar_text c' s2 sa sh ra sb
                                  @ '' ['' @ l @ '':'' @ rightBrac_text c' s avg @ '']'')
                          @ '' '' @ description c'
                     else [CHR 0x0D] @ description c'
                          @ (if currentPercent s = 100 then bar_text c' s2 sa sh ra sb
                             else bar_text c' s2 sa sh ra sb
                                  @ '' ['' @ l @ '':'' @ rightBrac_text c' s avg @ '']''))"
    if "renderProgressBar c' s e1 = ((w, r), s', e2) \<and> \<not> ignoreLength c' \<and> predictTime c'
        \<and> r \<noteq> Panicked" for c' s e1 w r s' e2
  proof -
    from that have a: "renderProgressBar c' s e1 = ((w, r), s', e2)" "\<not> ignoreLength c'"
      "predictTime c'" "r \<noteq> Panicked"
      by simp_all
    from renderProgressBar_segment [OF a] show ?thesis .
  qed
  from fin(3) have "\<exists>sf avg sb s2 sa sh ra.
             info (math_Log e) (config p0) sf avg = Some sb \<and> currentPercent s2 = 100
           \<and> rendered (state p') =
                (if colorCodes (config p0)
                 then Color e ([CHR 0x0D] @ description (config p0)
                               @ bar_text (config p0) s2 sa sh ra sb)
                 else [CHR 0x0D] @ description (config p0) @ bar_text (config p0) s2 sa sh ra sb)"
    unfolding P_def c_def .
  with fin(1,2) seg show ?thesis by (intro conjI allI impI)
qed

lemma NewOptions64_blank:
  assumes "NewOptions64 mx [] e = Some (p, e')"
  shows "rendered (state p) = []"
  using assms
  by (auto simp: NewOptions64_def getBasicState_def Now_def Let_def
           split: if_splits option.splits)

theorem time_segment_at_completion_witness:
  "(case Adds [4, 6] (fst slow_bar) (snd slow_bar) of
      (rs, p', e') \<Rightarrow> rs = [Returned None, Returned None]
                     \<and> currentPercent (state p') = 100 \<and> finished (state p'))"
proof -
  note f = slow_bar_facts
  note n = NewOptions64_Some [OF slow_bar_new] NewOptions64_nil [OF slow_bar_new]
  have c0: "\<not> exit (state (fst slow_bar))" "maxLineWidth (state (fst slow_bar)) = 0"
    using n by simp_all
  obtain r1 p1 e1 where a1: "Add64 4 (fst slow_bar) (snd slow_bar) = (r1, p1, e1)"
    by (cases "Add64 4 (fst slow_bar) (snd slow_bar)")
  obtain r2 p2 e2 where a2: "Add64 6 p1 e1 = (r2, p2, e2)" by (cases "Add64 6 p1 e1")
  have run: "Adds [4, 6] (fst slow_bar) (snd slow_bar) = ([r1, r2], p2, e2)"
    using a1 a2 by simp
  note f1 = Add64_frame [OF a1]
  have i: "i64 4 = 4" "i64 10 = 10" by (rule i64_id; simp add: minInt64_def maxInt64_def)+
  have k1: "currentNum (state p1) = 4" using Add64_below [OF a1] f c0 by (simp add: i)
  have k2: "currentNum (state p2) = 10" using Add64_below [OF a2] f1 f c0 k1 by (simp add: i)
  have r1: "r1 = Returned None"
    using f c0 k1 by (intro Add64_accepting [OF a1]) simp_all
  have "0 \<le> maxLineWidth (state p1)" using Add64_width [OF a1] c0 by simp
  then have r2: "r2 = Returned None"
    using f1 f c0 k2 by (intro Add64_accepting [OF a2]) simp_all
  from time_segment_at_completion [OF slow_bar_new _ _ _ _ run] r1 r2 show ?thesis
    by (simp add: a1 a2)
qed

text \<open>
  Claim C7 as it is worded holds for all deltas that sum to the maximum.  On a bar of
  length 10 the deltas 20 and -10 sum to 10; the first call takes the counter to 20,
  the second leaves it there, both return "current number exceeds max", the
  percentage ends at 200 and no line is drawn.
\<close>

theorem overshoot_then_back:
  "sum_list [20, - 10] = (10 :: int)
   \<and> (case Adds [20, - 10] (fst slow_bar) (snd slow_bar) of
        (rs, p', e') \<Rightarrow> rs = [Returned (Some ErrExceedsMax), Returned (Some ErrExceedsMax)]
                       \<and> max_c (config p') = 10 \<and> currentNum (state p') = 20
                       \<and> currentPercent (state p') = 200
                       \<and> rendered (state p') = [] \<and> written e' = [])"
proof -
  note f = slow_bar_facts
  note n = NewOptions64_Some [OF slow_bar_new]
  have c0: "\<not> exit (state (fst slow_bar))" "rendered (state (fst slow_bar)) = []"
    using n NewOptions64_blank [OF slow_bar_new] by simp_all
  obtain r1 p1 e1 where a1: "Add64 20 (fst slow_bar) (snd slow_bar) = (r1, p1, e1)"
    by (cases "Add64 20 (fst slow_bar) (snd slow_bar)")
  obtain r2 p2 e2 where a2: "Add64 (- 10) p1 e1 = (r2, p2, e2)" by (cases "Add64 (- 10) p1 e1")
  note f1 = Add64_frame [OF a1] and f2 = Add64_frame [OF a2]
  have i: "i64 20 = 20" by (rule i64_id; simp add: minInt64_def maxInt64_def)
  have k1: "currentNum (state p1) = 20" using Add64_below [OF a1] f c0 by (simp add: i)
  have x1: "r1 = Returned (Some ErrExceedsMax) \<and> rendered (state p1) = rendered (state (fst slow_bar))
         \<and> written e1 = written (snd slow_bar)"
    using f c0 k1 by (intro Add64_exceeded [OF a1]) simp_all
  have b2: "r2 = Returned (Some ErrExceedsMax) \<and> currentNum (state p2) = currentNum (state p1)"
    using Add64_beyond [OF a2] f1 f c0 k1 by simp
  have x2: "r2 = Returned (Some ErrExceedsMax) \<and> rendered (state p2) = rendered (state p1)
         \<and> written e2 = written e1"
    using f1 f c0 k1 b2 by (intro Add64_exceeded [OF a2]) simp_all
  have fl: "f64_of_int 20 = Fin 20" "f64_of_int 10 = Fin 10"
    using f64_of_int_exact [of 20] f64_of_int_exact [of 10] by simp_all
  have r2': "f64_round 2 = Fin 2" "f64_round 200 = Fin 200"
    using f64_of_int_exact [of 2] f64_of_int_exact [of 200] by (simp_all add: f64_of_int_def)
  have "currentPercent (state p2) = 200"
    using Add64_percent [OF a2] f1 f c0 b2 k1
    by (simp add: fl r2' minInt64_def maxInt64_def)
  with x1 x2 b2 k1 f1 f2 f c0 show ?thesis by (simp add: a1 a2)
qed



section \<open>Byte counts: the number and the unit\<close>


lemma round_even_near: "\<bar>of_int (round_even z) - z\<bar> \<le> 1 / 2"
proof -
  have f: "of_int \<lfloor>z\<rfloor> \<le> z" "z < of_int \<lfloor>z\<rfloor> + 1" by linarith+
  show ?thesis
    unfolding round_even_def Let_def using f by (auto simp: abs_le_iff)
qed

lemma f64_round_error:
  assumes "0 \<le> x" "x < pow2 k" "- 1021 \<le> k" "k \<le> 1023"
  shows "\<exists>r. f64_round x = Fin r \<and> 0 \<le> r \<and> \<bar>r - x\<bar> \<le> pow2 (k - 54)"
proof (cases "x = 0")
  case True
  then show ?thesis using pow2_pos [of "k - 54"] by simp
next
  case False
  with assms have x0: "0 < x" by simp
  have "pow2 k \<le> pow2 1023" using assms(4) by (rule pow2_mono)
  with assms(2) have "x < pow2 1023" by simp
  from f64_round_finite_pos [OF x0 this] obtain r where r: "f64_round x = Fin r" "0 \<le> r"
    by blast
  define q where "q = pow2 (fexp x - 52)"
  have q0: "0 < q" by (simp add: q_def pow2_pos)
  from x0 have rq: "r = of_int (round_even (x / q)) * q"
    unfolding q_def by (cases rule: f64_round_pos) (use r in auto)
  have "\<bar>r - x\<bar> = \<bar>of_int (round_even (x / q)) - x / q\<bar> * q"
  proof -
    have "r - x = (of_int (round_even (x / q)) - x / q) * q"
      using q0 by (simp add: rq field_simps)
    then show ?thesis using q0 by (simp add: abs_mult)
  qed
  also have "\<dots> \<le> 1 / 2 * q"
    using round_even_near [of "x / q"] q0 by (intro mult_right_mono) simp_all
  also have "1 / 2 * q = pow2 (fexp x - 53)"
  proof -
    have "pow2 (fexp x - 52) = pow2 ((fexp x - 53) + 1)" by simp
    also have "\<dots> = pow2 (fexp x - 53) * pow2 1" by (rule pow2_add)
    finally show ?thesis by (simp add: q_def pow2_def)
  qed
  also have "pow2 (fexp x - 53) \<le> pow2 (k - 54)"
  proof -
    have "ilog2 x < k"
    proof (rule ccontr)
      assume "\<not> ilog2 x < k"
      then have "pow2 k \<le> pow2 (ilog2 x)" by (intro pow2_mono) simp
      moreover have "pow2 (ilog2 x) \<le> x" using ilog2_bounds [of x] x0 by auto
      ultimately show False using assms(2) by simp
    qed
    then have "fexp x \<le> k - 1" using assms(3) by (simp add: fexp_def)
    then show ?thesis by (intro pow2_mono) simp
  qed
  finally show ?thesis using r by blast
qed

lemma f64_round_error_nat:
  assumes "0 \<le> x" "x < 2 ^ n" "n \<le> 1023"
  shows "\<exists>r. f64_round x = Fin r \<and> 0 \<le> r \<and> x - 2 ^ n / 2 ^ 54 \<le> r \<and> r \<le> x + 2 ^ n / 2 ^ 54"
proof -
  have "x < pow2 (int n)" using assms(2) by (simp only: pow2_nat)
  from f64_round_error [OF assms(1) this] assms(3)
  obtain r where r: "f64_round x = Fin r" "0 \<le> r" "\<bar>r - x\<bar> \<le> pow2 (int n - 54)" by auto
  have "pow2 (int n - int 54) = 2 ^ n / 2 ^ 54" by (rule pow2_diff_nat)
  with r(3) have "\<bar>r - x\<bar> \<le> pow2 (int n - int 54)" by simp
  then have "x - pow2 (int n - int 54) \<le> r \<and> r \<le> x + pow2 (int n - int 54)" by linarith
  then have "x - 2 ^ n / 2 ^ 54 \<le> r \<and> r \<le> x + 2 ^ n / 2 ^ 54"
    by (simp only: pow2_diff_nat)
  with r(1,2) show ?thesis by blast
qed

lemma scaled_near:
  assumes "0 \<le> a" "a / 1024 ^ i < 2 ^ 40"
  shows "\<exists>v. scaled (Fin a) i = Fin v \<and> 0 \<le> v \<and> \<bar>v - a / 1024 ^ i\<bar> \<le> 51 / 1000"
proof -
  define x where "x = a / 1024 ^ i"
  have x: "0 \<le> x" "x < 2 ^ 40" using assms by (simp_all add: x_def)
  from f64_round_error_nat [OF x] obtain x1
    where x1: "f64_round x = Fin x1" "0 \<le> x1"
      and e1: "x - 2 ^ 40 / 2 ^ 54 \<le> x1" "x1 \<le> x + 2 ^ 40 / 2 ^ 54" by auto
  have y: "0 \<le> x1 * 10" "x1 * 10 < 2 ^ 44" using e1 x(2) x1(2) by simp_all
  from f64_round_error_nat [OF y] obtain x2
    where x2: "f64_round (x1 * 10) = Fin x2" "0 \<le> x2"
      and e2: "x1 * 10 - 2 ^ 44 / 2 ^ 54 \<le> x2" "x2 \<le> x1 * 10 + 2 ^ 44 / 2 ^ 54"
    by auto
  have z: "0 \<le> x2 + 1 / 2" "x2 + 1 / 2 < 2 ^ 45" using e2 y(2) x2(2) by simp_all
  from f64_round_error_nat [OF z] obtain x3
    where x3: "f64_round (x2 + 1 / 2) = Fin x3" "0 \<le> x3"
      and e3: "x2 + 1 / 2 - 2 ^ 45 / 2 ^ 54 \<le> x3" "x3 \<le> x2 + 1 / 2 + 2 ^ 45 / 2 ^ 54"
    by auto
  define n where "n = \<lfloor>x3\<rfloor>"
  have n: "of_int n \<le> x3" "x3 < of_int n + 1" "0 \<le> n"
    unfolding n_def using x3(2) by (linarith, linarith, simp)
  have "x3 < 2 ^ 46" using e3 z(2) by simp
  with n(1) have "(of_int n :: rat) < 2 ^ 46" by linarith
  then have w: "0 \<le> (of_int n :: rat) / 10" "(of_int n :: rat) / 10 < 2 ^ 43"
    using n(3) by simp_all
  from f64_round_error_nat [OF w] obtain v
    where v: "f64_round (of_int n / 10) = Fin v" "0 \<le> v"
      and e4: "of_int n / 10 - 2 ^ 43 / 2 ^ 54 \<le> v" "v \<le> of_int n / 10 + 2 ^ 43 / 2 ^ 54"
    by auto
  have "scaled (Fin a) i = Fin v"
    by (simp add: scaled_def x_def [symmetric] x1 x2 x3 n_def [symmetric] v)
  moreover have "\<bar>v - x\<bar> \<le> 51 / 1000"
  proof -
    have "v - x \<le> 51 / 1000" "x - v \<le> 51 / 1000" using e1 e2 e3 e4 n(1,2) by simp_all
    then show ?thesis by linarith
  qed
  ultimately show ?thesis using v(2) by (auto simp: x_def)
qed

lemma humanizeBytes_unit_fixed:
  assumes "10 \<le> a" "f64_div (lg (Fin a)) (lg (Fin 1024)) = Fin q" "0 \<le> q" "q < 7"
    "a / 1024 ^ nat \<lfloor>q\<rfloor> < 2 ^ 40"
  shows "\<exists>v. scaled (Fin a) (nat \<lfloor>q\<rfloor>) = Fin v \<and> \<bar>v - a / 1024 ^ nat \<lfloor>q\<rfloor>\<bar> \<le> 51 / 1000
           \<and> humanizeBytes lg (Fin a)
               = Some (fixed (if v < 10 then 1 else 0) v, sizes ! nat \<lfloor>q\<rfloor>)"
proof -
  have "0 \<le> a" using assms(1) by simp
  from scaled_near [OF this assms(5)] obtain v
    where v: "scaled (Fin a) (nat \<lfloor>q\<rfloor>) = Fin v" "\<bar>v - a / 1024 ^ nat \<lfloor>q\<rfloor>\<bar> \<le> 51 / 1000"
    by blast
  have "humanizeBytes lg (Fin a) = Some (fixed (if v < 10 then 1 else 0) v, sizes ! nat \<lfloor>q\<rfloor>)"
    using humanizeBytes_unit [OF assms(1,2,3,4)] by (simp add: v pad_left_def)
  with v show ?thesis by blast
qed

text \<open>
  Claim C9, as the code has it.  \<open>humanizeBytes\<close> returns the number and the unit as two
  strings that the caller joins.  It maps 5 to \<open>" 5"\<close> and \<open>" B"\<close> (the number is
  right-aligned in two columns, so the joined text is \<open>" 5 B"\<close>).  When \<open>math.Log\<close> of
  1024 is a positive number it maps 1024 to \<open>"1.0 KB"\<close>, and it maps 1536 to
  \<open>"1.5 KB"\<close> and 10240 to \<open>"10 KB"\<close> when \<open>math.Log\<close> of them is from 1 to 1.5 times
  that of 1024.  The units are the seven suffixes B, KB, MB, GB, TB, PB, EB.  A value
  below 10 is printed without decimals in two columns with the suffix B.  From 10 on,
  with \<open>q\<close> the quotient in \<open>float64\<close> of the logarithm of the value by that of 1024:
  the unit is the one of index \<open>\<lfloor>q\<rfloor>\<close>, whether or not the value has reached that power
  of 1024; the value in that unit, \<open>val\<close> in the code, is within 51/1000 of the value
  divided by \<open>1024 ^ \<lfloor>q\<rfloor>\<close> (when that is below \<open>2 ^ 40\<close>) and is printed with one decimal
  when it is below 10 and with none otherwise; and a \<open>q\<close> below 0 or from 7 on is the
  panic of an index outside the units.
\<close>

theorem humanizeBytes_units:
  assumes "lg (Fin 1024) = Fin l" "0 < l"
  shows "humanizeBytes lg (Fin 5) = Some ('' 5'', '' B'')
   \<and> humanizeBytes lg (Fin 1024) = Some (''1.0'', '' KB'')
   \<and> (\<forall>l'. lg (Fin 1536) = Fin l' \<and> l \<le> l' \<and> l' \<le> 3 / 2 * l \<longrightarrow>
         humanizeBytes lg (Fin 1536) = Some (''1.5'', '' KB''))
   \<and> (\<forall>l'. lg (Fin 10240) = Fin l' \<and> l \<le> l' \<and> l' \<le> 3 / 2 * l \<longrightarrow>
         humanizeBytes lg (Fin 10240) = Some (''10'', '' KB''))
   \<and> sizes = ['' B'', '' KB'', '' MB'', '' GB'', '' TB'', '' PB'', '' EB'']
   \<and> (\<forall>a. a < 10 \<longrightarrow>
         humanizeBytes lg (Fin a) = Some (pad_left 2 CHR '' '' (fixed 0 a), '' B''))
   \<and> (\<forall>a q. 10 \<le> a \<and> f64_div (lg (Fin a)) (lg (Fin 1024)) = Fin q \<and> 0 \<le> q \<and> q < 7
            \<and> a / 1024 ^ nat \<lfloor>q\<rfloor> < 2 ^ 40 \<longrightarrow>
         (\<exists>v. scaled (Fin a) (nat \<lfloor>q\<rfloor>) = Fin v \<and> \<bar>v - a / 1024 ^ nat \<lfloor>q\<rfloor>\<bar> \<le> 51 / 1000
            \<and> humanizeBytes lg (Fin a)
                = Some (fixed (if v < 10 then 1 else 0) v, sizes ! nat \<lfloor>q\<rfloor>)))
   \<and> (\<forall>a q. 10 \<le> a \<and> f64_div (lg (Fin a)) (lg (Fin 1024)) = Fin q \<and> (q < 0 \<or> 7 \<le> q) \<longrightarrow>
         humanizeBytes lg (Fin a) = None)
   \<and> (\<forall>a. CHR ''.'' \<notin> set (fixed 0 a))
   \<and> (\<forall>a. \<exists>ds d. fixed 1 a = ds @ ''.'' @ [d] \<and> CHR ''.'' \<notin> set ds)"
proof -
  have a: "humanizeBytes lg (Fin 5) = Some ('' 5'', '' B'')" by (rule humanizeBytes_5)
  have b: "humanizeBytes lg (Fin 1024) = Some (''1.0'', '' KB'')"
    using assms by (rule humanizeBytes_1024)
  have c: "\<forall>l'. lg (Fin 1536) = Fin l' \<and> l \<le> l' \<and> l' \<le> 3 / 2 * l \<longrightarrow>
         humanizeBytes lg (Fin 1536) = Some (''1.5'', '' KB'')"
    using humanizeBytes_1536 [of lg l, OF assms] by blast
  have d: "\<forall>l'. lg (Fin 10240) = Fin l' \<and> l \<le> l' \<and> l' \<le> 3 / 2 * l \<longrightarrow>
         humanizeBytes lg (Fin 10240) = Some (''10'', '' KB'')"
    using humanizeBytes_10240 [of lg l, OF assms] by blast
  have e: "sizes = ['' B'', '' KB'', '' MB'', '' GB'', '' TB'', '' PB'', '' EB'']"
    by (simp add: sizes_def)
  have f: "\<forall>a. a < 10 \<longrightarrow>
         humanizeBytes lg (Fin a) = Some (pad_left 2 CHR '' '' (fixed 0 a), '' B'')"
    by (simp add: humanizeBytes_small)
  have g: "\<forall>a q. 10 \<le> a \<and> f64_div (lg (Fin a)) (lg (Fin 1024)) = Fin q \<and> 0 \<le> q \<and> q < 7
            \<and> a / 1024 ^ nat \<lfloor>q\<rfloor> < 2 ^ 40 \<longrightarrow>
         (\<exists>v. scaled (Fin a) (nat \<lfloor>q\<rfloor>) = Fin v \<and> \<bar>v - a / 1024 ^ nat \<lfloor>q\<rfloor>\<bar> \<le> 51 / 1000
            \<and> humanizeBytes lg (Fin a)
                = Some (fixed (if v < 10 then 1 else 0) v, sizes ! nat \<lfloor>q\<rfloor>))"
    using humanizeBytes_unit_fixed [of _ lg] by blast
  have h: "\<forall>a q. 10 \<le> a \<and> f64_div (lg (Fin a)) (lg (Fin 1024)) = Fin q \<and> (q < 0 \<or> 7 \<le> q) \<longrightarrow>
         humanizeBytes lg (Fin a) = None"
    using humanizeBytes_panics [of _ lg] by blast
  have i: "\<forall>a. CHR ''.'' \<notin> set (fixed 0 a)" using fixed_0_no_point by blast
  have j: "\<forall>a. \<exists>ds d. fixed 1 a = ds @ ''.'' @ [d] \<and> CHR ''.'' \<notin> set ds"
    using fixed_1_one_decimal by blast
  from a b c d e f g h i j show ?thesis by (intro conjI)
qed

lemma example_Log_values:
  "example_Log (Fin 1536) = Fin 10" "example_Log (Fin 10240) = Fin 13"
  "example_Log (Fin (2 ^ 70)) = Fin 70"
proof -
  have "ilog2 1536 = 10" by (rule ilog2_unique) (simp_all add: pow2_def)
  then show "example_Log (Fin 1536) = Fin 10" by simp
  have "ilog2 10240 = 13" by (rule ilog2_unique) (simp_all add: pow2_def)
  then show "example_Log (Fin 10240) = Fin 13" by simp
  have "ilog2 (2 ^ 70) = 70" by (rule ilog2_unique) (simp_all add: pow2_def)
  then show "example_Log (Fin (2 ^ 70)) = Fin 70" by simp
qed

theorem humanizeBytes_units_witness:
  "example_Log (Fin 1024) = Fin 10
   \<and> humanizeBytes example_Log (Fin 5) = Some ('' 5'', '' B'')
   \<and> humanizeBytes example_Log (Fin 1024) = Some (''1.0'', '' KB'')
   \<and> example_Log (Fin 1536) = Fin 10
   \<and> humanizeBytes example_Log (Fin 1536) = Some (''1.5'', '' KB'')
   \<and> example_Log (Fin 10240) = Fin 13
   \<and> humanizeBytes example_Log (Fin 10240) = Some (''10'', '' KB'')
   \<and> f64_div (example_Log (Fin 1536)) (example_Log (Fin 1024)) = Fin 1
   \<and> (\<exists>v. scaled (Fin 1536) 1 = Fin v \<and> \<bar>v - 1536 / 1024\<bar> \<le> 51 / 1000
          \<and> humanizeBytes example_Log (Fin 1536)
              = Some (fixed (if v < 10 then 1 else 0) v, sizes ! 1))
   \<and> f64_div (example_Log (Fin (2 ^ 70))) (example_Log (Fin 1024)) = Fin 7
   \<and> humanizeBytes example_Log (Fin (2 ^ 70)) = None"
proof -
  note t = humanizeBytes_units [of example_Log 10, OF example_Log_1024]
  note v = example_Log_values
  have q1: "f64_div (example_Log (Fin 1536)) (example_Log (Fin 1024)) = Fin 1"
    unfolding v example_Log_1024 by (simp add: f64_round_1)
  have r7: "f64_round 7 = Fin 7" using f64_of_int_exact [of 7] by (simp add: f64_of_int_def)
  have q7: "f64_div (example_Log (Fin (2 ^ 70))) (example_Log (Fin 1024)) = Fin 7"
    unfolding v example_Log_1024 by (simp add: r7)
  from t have "humanizeBytes example_Log (Fin 5) = Some ('' 5'', '' B'')"
    and "humanizeBytes example_Log (Fin 1024) = Some (''1.0'', '' KB'')"
    and c: "\<forall>l'. example_Log (Fin 1536) = Fin l' \<and> 10 \<le> l' \<and> l' \<le> 3 / 2 * 10 \<longrightarrow>
         humanizeBytes example_Log (Fin 1536) = Some (''1.5'', '' KB'')"
    and d: "\<forall>l'. example_Log (Fin 10240) = Fin l' \<and> 10 \<le> l' \<and> l' \<le> 3 / 2 * 10 \<longrightarrow>
         humanizeBytes example_Log (Fin 10240) = Some (''10'', '' KB'')"
    and g: "\<forall>a q. 10 \<le> a \<and> f64_div (example_Log (Fin a)) (example_Log (Fin 1024)) = Fin q
            \<and> 0 \<le> q \<and> q < 7 \<and> a / 1024 ^ nat \<lfloor>q\<rfloor> < 2 ^ 40 \<longrightarrow>
         (\<exists>v. scaled (Fin a) (nat \<lfloor>q\<rfloor>) = Fin v \<and> \<bar>v - a / 1024 ^ nat \<lfloor>q\<rfloor>\<bar> \<le> 51 / 1000
            \<and> humanizeBytes example_Log (Fin a)
                = Some (fixed (if v < 10 then 1 else 0) v, sizes ! nat \<lfloor>q\<rfloor>))"
    and h: "\<forall>a q. 10 \<le> a \<and> f64_div (example_Log (Fin a)) (example_Log (Fin 1024)) = Fin q
            \<and> (q < 0 \<or> 7 \<le> q) \<longrightarrow> humanizeBytes example_Log (Fin a) = None"
    by simp_all
  moreover from c v(1) have "humanizeBytes example_Log (Fin 1536) = Some (''1.5'', '' KB'')"
    by simp
  moreover from d v(2) have "humanizeBytes example_Log (Fin 10240) = Some (''10'', '' KB'')"
    by simp
  moreover from g [rule_format, of 1536 1] q1
  have "\<exists>v. scaled (Fin 1536) 1 = Fin v \<and> \<bar>v - 1536 / 1024\<bar> \<le> 51 / 1000
          \<and> humanizeBytes example_Log (Fin 1536)
              = Some (fixed (if v < 10 then 1 else 0) v, sizes ! 1)"
    by simp
  moreover from h [rule_format, of "2 ^ 70" 7] q7
  have "humanizeBytes example_Log (Fin (2 ^ 70)) = None" by simp
  ultimately show ?thesis using example_Log_1024 v q1 q7 by (intro conjI)
qed

text \<open>
  Claim C9 as it is worded has 5 printed as \<open>"5 B"\<close>; the number comes out as \<open>" 5"\<close>,
  and joined with its unit it is not that text.
\<close>

theorem humanizeBytes_five_is_padded:
  "humanizeBytes example_Log (Fin 5) = Some ('' 5'', '' B'') \<and> '' 5'' @ '' B'' \<noteq> ''5 B''"
  using humanizeBytes_5 [of example_Log] by simp


end
